theory Spec2Isabelle
  imports Main "HOL-Library.AList" "HOL-Library.Product_Lexorder" "HOL-Library.Option_ord"
begin

section \<open>Data model of \<^verbatim>\<open>electrum/address_synchronizer.py\<close>\<close>

text \<open>
  The class \<^verbatim>\<open>AddressSynchronizer\<close> is embedded as a record of its containers and
  every method as a function that takes the record and returns the updated one.

  \<^item> A Python \<^verbatim>\<open>dict\<close> is an association list: \<open>map_of\<close> looks a key up,
    \<open>AList.update\<close> overwrites a key in place or appends a new one at the end (Python
    keeps insertion order), \<open>AList.delete\<close> is \<^verbatim>\<open>pop(k, None)\<close>.
  \<^item> A Python \<^verbatim>\<open>set\<close> is a list without repetition (\<open>List.insert\<close>,
    \<open>List.union\<close>, \<open>removeAll\<close>); Python leaves the iteration order of a set open,
    the model iterates in list order.
  \<^item> A \<^verbatim>\<open>defaultdict\<close> inserts the default when a missing key is read with
    \<^verbatim>\<open>d[k]\<close>; \<open>dd_touch\<close> is that insertion.
  \<^item> An exception is a value of \<open>error\<close>; a method that can raise returns its result
    together with the state reached when it returned or raised.
  \<^item> The outpoint string \<^verbatim>\<open>prevout_hash + ':%d' % prevout_n\<close> is kept as the pair it
    is formatted from (the formatting is injective: a decimal numeral holds no colon, so
    the last colon of the string separates the two parts).
  \<^item> Locks and the per-address change events neither read nor write the containers
    below and are left out. The token overlay (\<^verbatim>\<open>omni_tx\<close>, filled from an external RPC
    daemon) is not a field of the state: the methods that change the containers do not
    read it, and \<^verbatim>\<open>get_history\<close>, which reads it, takes it as an argument.
\<close>

type_synonym txid = string
type_synonym address = string
type_synonym outpoint = "txid \<times> int"

definition TX_HEIGHT_LOCAL :: int where "TX_HEIGHT_LOCAL = - 2"
definition TX_HEIGHT_UNCONF_PARENT :: int where "TX_HEIGHT_UNCONF_PARENT = - 1"
definition TX_HEIGHT_UNCONFIRMED :: int where "TX_HEIGHT_UNCONFIRMED = 0"
definition COINBASE_MATURITY :: int where "COINBASE_MATURITY = 100"

datatype error =
    UnrelatedTransactionException
  | AssertionError
  | ConflictException
  | IndexError
  | RuntimeError
  | RecursionError
  | TypeError
  | OverflowError
  | AttributeError
  | InvalidOperation

text \<open>A transaction input (a dict in the source): \<^verbatim>\<open>txin['type']\<close>,
  \<^verbatim>\<open>txin['prevout_hash']\<close>, \<^verbatim>\<open>txin['prevout_n']\<close>, \<^verbatim>\<open>txin.get('address')\<close>.\<close>

record txin =
  in_type :: string
  prevout_hash :: txid
  prevout_n :: int
  in_address :: "address option"

datatype output_type = TYPE_ADDRESS | TYPE_PUBKEY | TYPE_SCRIPT

text \<open>\<^verbatim>\<open>TxOutput(type, address, value)\<close>.\<close>

record txout =
  out_type :: output_type
  out_address :: string
  out_value :: int

text \<open>\<^verbatim>\<open>Transaction\<close>: \<open>raw\<close> is what \<^verbatim>\<open>str(tx)\<close> serializes, \<open>cached_fee\<close> the
  attribute \<^verbatim>\<open>_cached_fee\<close> (\<open>None\<close>: attribute absent), \<open>tx_txid\<close> the value of
  \<^verbatim>\<open>tx.txid()\<close>.\<close>

record transaction =
  inputs :: "txin list"
  outputs :: "txout list"
  raw :: string
  is_complete :: bool
  cached_fee :: "int option"
  tx_txid :: txid

text \<open>\<^verbatim>\<open>util.TxMinedInfo\<close>.\<close>

record TxMinedInfo =
  height :: int
  conf :: "int option"
  timestamp :: "int option"
  txpos :: "int option"
  header_hash :: "string option"

type_synonym txi_entry = "(address \<times> (outpoint \<times> int) list) list"
type_synonym txo_entry = "(address \<times> (int \<times> int \<times> bool) list) list"
type_synonym spent_map = "(txid \<times> (int \<times> txid) list) list"

text \<open>What \<^verbatim>\<open>save_transactions\<close> puts into the storage, key by key.\<close>

record blobs =
  blob_transactions :: "(txid \<times> string) list"
  blob_txi :: "(txid \<times> txi_entry) list"
  blob_txo :: "(txid \<times> txo_entry) list"
  blob_tx_fees :: "(txid \<times> int) list"
  blob_addr_history :: "(address \<times> (txid \<times> int) list) list"
  blob_spent_outpoints :: spent_map

text \<open>The engine. \<open>verifier\<close> tells whether \<^verbatim>\<open>self.verifier\<close> is set, \<open>spv_removed\<close>
  logs the calls of \<^verbatim>\<open>verifier.remove_spv_proof_for_tx\<close>, \<open>local_height\<close> is the value
  of \<^verbatim>\<open>get_local_height()\<close>, \<open>storage\<close> the blobs last put by \<^verbatim>\<open>save_transactions\<close>.\<close>

record state =
  transactions :: "(txid \<times> transaction) list"
  history :: "(address \<times> (txid \<times> int) list) list"
  verified_tx :: "(txid \<times> TxMinedInfo) list"
  unverified_tx :: "(txid \<times> int) list"
  tx_fees :: "(txid \<times> int) list"
  txi :: "(txid \<times> txi_entry) list"
  txo :: "(txid \<times> txo_entry) list"
  spent_outpoints :: spent_map
  history_local :: "(address \<times> txid list) list"
  verifier :: bool
  spv_removed :: "txid list"
  local_height :: int
  storage :: "blobs option"

subsection \<open>Dictionaries\<close>

abbreviation dict_in :: "'k \<Rightarrow> ('k \<times> 'v) list \<Rightarrow> bool" where
  "dict_in k d \<equiv> k \<in> fst ` set d"

text \<open>\<^verbatim>\<open>d.get(k, default)\<close>.\<close>

definition dict_get :: "('k \<times> 'v) list \<Rightarrow> 'k \<Rightarrow> 'v \<Rightarrow> 'v" where
  "dict_get d k dflt = (case map_of d k of None \<Rightarrow> dflt | Some v \<Rightarrow> v)"

text \<open>Reading \<^verbatim>\<open>d[k]\<close> on a \<^verbatim>\<open>defaultdict(dict)\<close>: a missing key is inserted with an
  empty dict.\<close>

definition dd_touch :: "'k \<Rightarrow> ('k \<times> ('a \<times> 'b) list) list \<Rightarrow> ('k \<times> ('a \<times> 'b) list) list" where
  "dd_touch k d = (if dict_in k d then d else d @ [(k, [])])"

subsection \<open>Heights and confirmations\<close>

definition get_tx_height :: "state \<Rightarrow> txid \<Rightarrow> TxMinedInfo" where
  "get_tx_height s tx_hash =
     (case map_of (verified_tx s) tx_hash of
        Some info \<Rightarrow> info\<lparr>conf := Some (max (local_height s - height info + 1) 0)\<rparr>
      | None \<Rightarrow>
          (case map_of (unverified_tx s) tx_hash of
             Some h \<Rightarrow> \<lparr>height = h, conf = Some 0, timestamp = None, txpos = None,
                        header_hash = None\<rparr>
           | None \<Rightarrow> \<lparr>height = TX_HEIGHT_LOCAL, conf = Some 0, timestamp = None,
                       txpos = None, header_hash = None\<rparr>))"

definition remove_spv_proof_for_tx :: "txid \<Rightarrow> state \<Rightarrow> state" where
  "remove_spv_proof_for_tx tx_hash s =
     (if verifier s then s\<lparr>spv_removed := spv_removed s @ [tx_hash]\<rparr> else s)"

definition add_unverified_tx :: "txid \<Rightarrow> int \<Rightarrow> state \<Rightarrow> state" where
  "add_unverified_tx tx_hash tx_height s =
     (if dict_in tx_hash (verified_tx s) then
        (if tx_height = TX_HEIGHT_UNCONFIRMED \<or> tx_height = TX_HEIGHT_UNCONF_PARENT then
           remove_spv_proof_for_tx tx_hash
             (s\<lparr>verified_tx := AList.delete tx_hash (verified_tx s)\<rparr>)
         else s)
      else s\<lparr>unverified_tx := AList.update tx_hash tx_height (unverified_tx s)\<rparr>)"

definition remove_unverified_tx :: "txid \<Rightarrow> int \<Rightarrow> state \<Rightarrow> state" where
  "remove_unverified_tx tx_hash tx_height s =
     (let new_height = map_of (unverified_tx s) tx_hash in
      if new_height = Some tx_height then
        s\<lparr>unverified_tx := AList.delete tx_hash (unverified_tx s)\<rparr>
      else s)"

text \<open>\<^verbatim>\<open>add_verified_tx\<close>; the \<^verbatim>\<open>verified\<close> callback of the network is an event, not
  state.\<close>

definition add_verified_tx :: "txid \<Rightarrow> TxMinedInfo \<Rightarrow> state \<Rightarrow> state" where
  "add_verified_tx tx_hash info s =
     s\<lparr>unverified_tx := AList.delete tx_hash (unverified_tx s),
       verified_tx := AList.update tx_hash info (verified_tx s)\<rparr>"

text \<open>\<^verbatim>\<open>undo_verifications(blockchain, height)\<close>. The chain collaborator is the pair
  \<open>read_header\<close> (\<open>None\<close>: no header at that height) and \<open>hash_header\<close>. The loop runs
  over a copy of the items; \<open>undo_step\<close> is its body.\<close>

text \<open>\<^verbatim>\<open>not header or hash_header(header) != info.header_hash\<close>.\<close>

definition header_stale :: "('h \<Rightarrow> string) \<Rightarrow> 'h option \<Rightarrow> TxMinedInfo \<Rightarrow> bool" where
  "header_stale hash_header header info =
     (case header of
        None \<Rightarrow> True
      | Some hdr \<Rightarrow> Some (hash_header hdr) \<noteq> header_hash info)"

definition undo_step ::
  "(int \<Rightarrow> 'h option) \<Rightarrow> ('h \<Rightarrow> string) \<Rightarrow> int \<Rightarrow> txid \<times> TxMinedInfo \<Rightarrow>
   txid list \<times> state \<Rightarrow> txid list \<times> state" where
  "undo_step read_header hash_header h item acc =
     (case item of (tx_hash, info) \<Rightarrow>
      case acc of (txs, s) \<Rightarrow>
        let tx_height = height info in
        if tx_height \<ge> h then
          (let header = read_header tx_height in
           if header_stale hash_header header info then
             (List.insert tx_hash txs,
              s\<lparr>verified_tx := AList.delete tx_hash (verified_tx s),
                unverified_tx := AList.update tx_hash tx_height (unverified_tx s)\<rparr>)
           else (txs, s))
        else (txs, s))"

definition undo_verifications ::
  "(int \<Rightarrow> 'h option) \<Rightarrow> ('h \<Rightarrow> string) \<Rightarrow> int \<Rightarrow> state \<Rightarrow> txid list \<times> state" where
  "undo_verifications read_header hash_header h s =
     fold (undo_step read_header hash_header h) (verified_tx s) ([], s)"

subsection \<open>Effect of a transaction on an address\<close>

definition get_tx_delta :: "state \<Rightarrow> txid \<Rightarrow> address \<Rightarrow> int" where
  "get_tx_delta s tx_hash addr =
     (let delta = 0;
          d = dict_get (dict_get (txi s) tx_hash []) addr [];
          delta = fold (\<lambda>(n, v) delta. delta - v) d delta;
          d' = dict_get (dict_get (txo s) tx_hash []) addr [];
          delta = fold (\<lambda>(n, v, cb) delta. delta + v) d' delta
      in delta)"

subsection \<open>Addresses of inputs and outputs\<close>

text \<open>\<^verbatim>\<open>is_mine(address)\<close> is \<^verbatim>\<open>address in self.history\<close>; \<^verbatim>\<open>None\<close> is in no dict.\<close>

definition is_mine :: "state \<Rightarrow> address option \<Rightarrow> bool" where
  "is_mine s a = (case a of None \<Rightarrow> False | Some addr \<Rightarrow> dict_in addr (history s))"

text \<open>The nested loop \<^verbatim>\<open>for addr, l in dd.items(): for n, v, is_cb in l: if n == prevout_n\<close>
  of \<^verbatim>\<open>get_txin_address\<close> and of \<^verbatim>\<open>add_value_from_prev_output\<close>: the first entry, in
  dict order, that has the output index, with its address and value.\<close>

fun find_output :: "txo_entry \<Rightarrow> int \<Rightarrow> (address \<times> int) option" where
  "find_output [] prev_n = None"
| "find_output ((addr, l) # dd) prev_n =
     (case find (\<lambda>(n, v, is_cb). n = prev_n) l of
        Some (n, v, is_cb) \<Rightarrow> Some (addr, v)
      | None \<Rightarrow> find_output dd prev_n)"

definition get_txin_address :: "state \<Rightarrow> txin \<Rightarrow> address option" where
  "get_txin_address s txin =
     (let addr = in_address txin in
      if addr \<noteq> None \<and> addr \<noteq> Some [] \<and> addr \<noteq> Some ''(pubkey)'' then addr
      else
        let dd = dict_get (txo s) (prevout_hash txin) [] in
        map_option fst (find_output dd (prevout_n txin)))"

text \<open>\<^verbatim>\<open>get_txout_address\<close>; \<open>p2pkh\<close> stands for
  \<^verbatim>\<open>bitcoin.public_key_to_p2pkh(bfh(.))\<close>, which is not part of this file.\<close>

definition get_txout_address :: "(string \<Rightarrow> address) \<Rightarrow> txout \<Rightarrow> address option" where
  "get_txout_address p2pkh out =
     (case out_type out of
        TYPE_ADDRESS \<Rightarrow> Some (out_address out)
      | TYPE_PUBKEY \<Rightarrow> Some (p2pkh (out_address out))
      | TYPE_SCRIPT \<Rightarrow> None)"

subsection \<open>The local history index\<close>

text \<open>The addresses \<^verbatim>\<open>itertools.chain(self.txi.get(txid, []), self.txo.get(txid, []))\<close>.\<close>

definition tx_addresses :: "state \<Rightarrow> txid \<Rightarrow> address list" where
  "tx_addresses s t = map fst (dict_get (txi s) t []) @ map fst (dict_get (txo s) t [])"

definition add_tx_to_local_history :: "txid \<Rightarrow> state \<Rightarrow> state" where
  "add_tx_to_local_history t s =
     fold (\<lambda>addr s'.
             let cur_hist = dict_get (history_local s') addr [] in
             s'\<lparr>history_local := AList.update addr (List.insert t cur_hist) (history_local s')\<rparr>)
          (tx_addresses s t) s"

text \<open>\<^verbatim>\<open>cur_hist.remove(txid)\<close> raises \<^verbatim>\<open>KeyError\<close> when the txid is not in the set,
  which the source catches and passes.\<close>

definition remove_tx_from_local_history :: "txid \<Rightarrow> state \<Rightarrow> state" where
  "remove_tx_from_local_history t s =
     fold (\<lambda>addr s'.
             let cur_hist = dict_get (history_local s') addr [] in
             if t \<in> set cur_hist then
               s'\<lparr>history_local := AList.update addr (removeAll t cur_hist) (history_local s')\<rparr>
             else s')
          (tx_addresses s t) s"

definition get_address_history :: "state \<Rightarrow> address \<Rightarrow> (txid \<times> int) list" where
  "get_address_history s addr =
     (let related_txns = dict_get (history_local s) addr [] in
      map (\<lambda>tx_hash. (tx_hash, height (get_tx_height s tx_hash))) related_txns)"

subsection \<open>Spent outpoints\<close>

text \<open>\<^verbatim>\<open>self.spent_outpoints[h][n] = t\<close>.\<close>

definition sp_set :: "txid \<Rightarrow> int \<Rightarrow> txid \<Rightarrow> spent_map \<Rightarrow> spent_map" where
  "sp_set h n t sp = AList.update h (AList.update n t (dict_get sp h [])) sp"

text \<open>\<^verbatim>\<open>self.spent_outpoints[h].pop(n, None)\<close> followed by
  \<^verbatim>\<open>if not self.spent_outpoints[h]: self.spent_outpoints.pop(h)\<close>.\<close>

definition sp_pop :: "txid \<Rightarrow> int \<Rightarrow> spent_map \<Rightarrow> spent_map" where
  "sp_pop h n sp =
     (let sp1 = dd_touch h sp;
          d = AList.delete n (dict_get sp1 h []);
          sp2 = AList.update h d sp1
      in if d = [] then AList.delete h sp2 else sp2)"

text \<open>\<^verbatim>\<open>get_conflicting_transactions\<close>: the loop over the inputs, then the check of the
  transaction against itself.\<close>

fun conflicting_loop ::
  "txin list \<Rightarrow> txid list \<Rightarrow> state \<Rightarrow> (error + txid list) \<times> state" where
  "conflicting_loop [] conflicting_txns s = (Inr conflicting_txns, s)"
| "conflicting_loop (txin # rest) conflicting_txns s =
     (if in_type txin = ''coinbase'' then conflicting_loop rest conflicting_txns s
      else
        let s1 = s\<lparr>spent_outpoints := dd_touch (prevout_hash txin) (spent_outpoints s)\<rparr>;
            spending_tx_hash =
              map_of (dict_get (spent_outpoints s1) (prevout_hash txin) []) (prevout_n txin)
        in case spending_tx_hash of
             None \<Rightarrow> conflicting_loop rest conflicting_txns s1
           | Some sp_tx \<Rightarrow>
               if \<not> dict_in sp_tx (transactions s1) then (Inl AssertionError, s1)
               else conflicting_loop rest (List.insert sp_tx conflicting_txns) s1)"

definition get_conflicting_transactions ::
  "txid \<Rightarrow> transaction \<Rightarrow> state \<Rightarrow> (error + txid list) \<times> state" where
  "get_conflicting_transactions tx_hash tx s =
     (case conflicting_loop (inputs tx) [] s of
        (Inl e, s1) \<Rightarrow> (Inl e, s1)
      | (Inr conflicting_txns, s1) \<Rightarrow>
          if tx_hash \<in> set conflicting_txns then
            (if length conflicting_txns > 1 then (Inl ConflictException, s1)
             else (Inr (removeAll tx_hash conflicting_txns), s1))
          else (Inr conflicting_txns, s1))"

text \<open>\<^verbatim>\<open>get_depending_transactions\<close> recurses through \<^verbatim>\<open>spent_outpoints\<close>; on a cycle
  the recursion does not end and Python raises \<^verbatim>\<open>RecursionError\<close>. The first argument
  is the recursion depth that is left. Only \<^verbatim>\<open>spent_outpoints\<close> is read and (by the
  \<^verbatim>\<open>defaultdict\<close>) written.\<close>

fun get_depending_transactions ::
  "nat \<Rightarrow> txid \<Rightarrow> spent_map \<Rightarrow> (error + txid list) \<times> spent_map" where
  "get_depending_transactions 0 tx_hash sp = (Inl RecursionError, sp)"
| "get_depending_transactions (Suc depth) tx_hash sp =
     (let sp1 = dd_touch tx_hash sp in
      fold (\<lambda>other_hash (r, sp2).
              case r of
                Inl e \<Rightarrow> (Inl e, sp2)
              | Inr children \<Rightarrow>
                  (case get_depending_transactions depth other_hash sp2 of
                     (Inl e, sp3) \<Rightarrow> (Inl e, sp3)
                   | (Inr sub, sp3) \<Rightarrow>
                       (Inr (List.union (List.insert other_hash children) sub), sp3)))
           (map snd (dict_get sp1 tx_hash []))
           (Inr [], sp1))"

subsection \<open>Removing a transaction\<close>

text \<open>The branch of \<^verbatim>\<open>remove_from_spent_outpoints\<close> for a known transaction.\<close>

definition remove_inputs_from_spent_outpoints :: "txin list \<Rightarrow> spent_map \<Rightarrow> spent_map" where
  "remove_inputs_from_spent_outpoints ins sp =
     fold (\<lambda>txin sp'.
             if in_type txin = ''coinbase'' then sp'
             else sp_pop (prevout_hash txin) (prevout_n txin) sp')
          ins sp"

text \<open>The branch for an unknown transaction scans a copy of the outer items, but
  iterates over the live inner dict \<^verbatim>\<open>d\<close> while it pops from it: after the first pop
  the next step of \<^verbatim>\<open>for prevout_n, spending_txid in d.items()\<close> raises
  \<^verbatim>\<open>RuntimeError: dictionary changed size during iteration\<close> (also when the popped item
  was the last one). Nothing is changed before the first match.\<close>

fun scan_spent_outpoints ::
  "spent_map \<Rightarrow> txid \<Rightarrow> spent_map \<Rightarrow> (error + unit) \<times> spent_map" where
  "scan_spent_outpoints [] tx_hash sp = (Inr (), sp)"
| "scan_spent_outpoints ((h, d) # items) tx_hash sp =
     (case find (\<lambda>(n, spending_txid). spending_txid = tx_hash) d of
        None \<Rightarrow> scan_spent_outpoints items tx_hash sp
      | Some (n, spending_txid) \<Rightarrow> (Inl RuntimeError, sp_pop h n sp))"

definition remove_from_spent_outpoints ::
  "transaction option \<Rightarrow> txid \<Rightarrow> spent_map \<Rightarrow> (error + unit) \<times> spent_map" where
  "remove_from_spent_outpoints tx tx_hash sp =
     (case (case tx of
              Some t \<Rightarrow> (Inr (), remove_inputs_from_spent_outpoints (inputs t) sp)
            | None \<Rightarrow> scan_spent_outpoints sp tx_hash sp) of
        (Inl e, sp1) \<Rightarrow> (Inl e, sp1)
      | (Inr u, sp1) \<Rightarrow>
          let sp2 = dd_touch tx_hash sp1 in
          if dict_get sp2 tx_hash [] = [] then (Inr (), AList.delete tx_hash sp2)
          else (Inr (), sp2))"

definition remove_transaction :: "txid \<Rightarrow> state \<Rightarrow> (error + unit) \<times> state" where
  "remove_transaction tx_hash s =
     (let tx = map_of (transactions s) tx_hash;
          s1 = s\<lparr>transactions := AList.delete tx_hash (transactions s)\<rparr>
      in case remove_from_spent_outpoints tx tx_hash (spent_outpoints s1) of
           (Inl e, sp) \<Rightarrow> (Inl e, s1\<lparr>spent_outpoints := sp\<rparr>)
         | (Inr u, sp) \<Rightarrow>
             let s2 = remove_tx_from_local_history tx_hash (s1\<lparr>spent_outpoints := sp\<rparr>);
                 s3 = s2\<lparr>txi := AList.delete tx_hash (txi s2)\<rparr>;
                 s4 = s3\<lparr>txo := AList.delete tx_hash (txo s3)\<rparr>
             in (Inr (), s4))"

text \<open>\<^verbatim>\<open>for tx_hash2 in to_remove: self.remove_transaction(tx_hash2)\<close>.\<close>

fun remove_transactions :: "txid list \<Rightarrow> state \<Rightarrow> (error + unit) \<times> state" where
  "remove_transactions [] s = (Inr (), s)"
| "remove_transactions (t # ts) s =
     (case remove_transaction t s of
        (Inl e, s1) \<Rightarrow> (Inl e, s1)
      | (Inr u, s1) \<Rightarrow> remove_transactions ts s1)"

subsection \<open>Adding a transaction\<close>

text \<open>The relatedness check:
  \<^verbatim>\<open>any([self.is_mine(self.get_txin_address(txin)) for txin in tx.inputs()])\<close> and
  \<^verbatim>\<open>any([self.is_mine(self.get_txout_address(txo)) for txo in tx.outputs()])\<close>.\<close>

definition has_mine_input :: "state \<Rightarrow> transaction \<Rightarrow> bool" where
  "has_mine_input s tx = list_ex (\<lambda>txin. is_mine s (get_txin_address s txin)) (inputs tx)"

definition has_mine_output :: "(string \<Rightarrow> address) \<Rightarrow> state \<Rightarrow> transaction \<Rightarrow> bool" where
  "has_mine_output p2pkh s tx =
     list_ex (\<lambda>out. is_mine s (get_txout_address p2pkh out)) (outputs tx)"

text \<open>The loop \<^verbatim>\<open>for conflicting_tx_hash in conflicting_txns: to_remove |=
  self.get_depending_transactions(conflicting_tx_hash)\<close>.\<close>

fun collect_depending ::
  "nat \<Rightarrow> txid list \<Rightarrow> txid list \<Rightarrow> spent_map \<Rightarrow> (error + txid list) \<times> spent_map" where
  "collect_depending depth [] to_remove sp = (Inr to_remove, sp)"
| "collect_depending depth (c # cs) to_remove sp =
     (case get_depending_transactions depth c sp of
        (Inl e, sp1) \<Rightarrow> (Inl e, sp1)
      | (Inr children, sp1) \<Rightarrow> collect_depending depth cs (List.union to_remove children) sp1)"

text \<open>The block \<^verbatim>\<open>if conflicting_txns: ...\<close> of \<^verbatim>\<open>add_transaction\<close>. The result
  \<open>Inr False\<close> is the early \<^verbatim>\<open>return False\<close>, \<open>Inr True\<close> means that the method goes on.\<close>

definition resolve_conflicts ::
  "nat \<Rightarrow> int \<Rightarrow> txid list \<Rightarrow> state \<Rightarrow> (error + bool) \<times> state" where
  "resolve_conflicts depth tx_height conflicting_txns s =
     (if conflicting_txns \<noteq> [] then
        (let existing_mempool_txn =
               list_ex (\<lambda>tx_hash2. height (get_tx_height s tx_hash2) = TX_HEIGHT_UNCONFIRMED
                                  \<or> height (get_tx_height s tx_hash2) = TX_HEIGHT_UNCONF_PARENT)
                       conflicting_txns;
             existing_confirmed_txn =
               list_ex (\<lambda>tx_hash2. height (get_tx_height s tx_hash2) > 0) conflicting_txns
         in if existing_confirmed_txn \<and> tx_height \<le> 0 then (Inr False, s)
            else if existing_mempool_txn \<and> tx_height = TX_HEIGHT_LOCAL then (Inr False, s)
            else
              (case collect_depending depth conflicting_txns conflicting_txns
                      (spent_outpoints s) of
                 (Inl e, sp) \<Rightarrow> (Inl e, s\<lparr>spent_outpoints := sp\<rparr>)
               | (Inr to_remove, sp) \<Rightarrow>
                   (case remove_transactions to_remove (s\<lparr>spent_outpoints := sp\<rparr>) of
                      (Inl e, s1) \<Rightarrow> (Inl e, s1)
                    | (Inr u, s1) \<Rightarrow> (Inr True, s1))))
      else (Inr True, s))"

text \<open>The closure \<^verbatim>\<open>add_value_from_prev_output\<close>, on the dict \<^verbatim>\<open>d = self.txi[tx_hash]\<close>.\<close>

definition add_value_from_prev_output :: "state \<Rightarrow> txin \<Rightarrow> txi_entry \<Rightarrow> txi_entry" where
  "add_value_from_prev_output s txin d =
     (let dd = dict_get (txo s) (prevout_hash txin) [];
          ser = (prevout_hash txin, prevout_n txin)
      in case find_output dd (prevout_n txin) of
           None \<Rightarrow> d
         | Some (addr, v) \<Rightarrow>
             if addr \<noteq> [] \<and> is_mine s (Some addr) then
               AList.update addr (List.insert (ser, v) (dict_get d addr [])) d
             else d)"

text \<open>The body of \<^verbatim>\<open>for txi in tx.inputs():\<close> under \<^verbatim>\<open># add inputs\<close>.\<close>

definition add_input :: "txid \<Rightarrow> txin \<Rightarrow> state \<Rightarrow> state" where
  "add_input tx_hash txin s =
     (if in_type txin = ''coinbase'' then s
      else
        let s1 = s\<lparr>spent_outpoints :=
                     sp_set (prevout_hash txin) (prevout_n txin) tx_hash (spent_outpoints s)\<rparr>;
            d = dict_get (txi s1) tx_hash []
        in s1\<lparr>txi := AList.update tx_hash (add_value_from_prev_output s1 txin d) (txi s1)\<rparr>)"

text \<open>\<^verbatim>\<open>give v to txi that spends me\<close>: when \<^verbatim>\<open>next_tx\<close> has no entry in \<^verbatim>\<open>self.txi\<close>,
  \<^verbatim>\<open>self.txi.get(next_tx, {})\<close> is a fresh dict and what is written to it is lost.\<close>

definition give_value_to_spender ::
  "txid \<Rightarrow> address \<Rightarrow> outpoint \<Rightarrow> int \<Rightarrow> state \<Rightarrow> state" where
  "give_value_to_spender next_tx addr ser v s =
     (let s1 =
        (case map_of (txi s) next_tx of
           None \<Rightarrow> s
         | Some dd \<Rightarrow>
             s\<lparr>txi := AList.update next_tx
                        (AList.update addr (List.insert (ser, v) (dict_get dd addr [])) dd)
                        (txi s)\<rparr>)
      in add_tx_to_local_history next_tx s1)"

text \<open>The body of \<^verbatim>\<open>for n, txo in enumerate(tx.outputs()):\<close> under \<^verbatim>\<open># add outputs\<close>.\<close>

definition add_output ::
  "(string \<Rightarrow> address) \<Rightarrow> txid \<Rightarrow> bool \<Rightarrow> nat \<times> txout \<Rightarrow> state \<Rightarrow> state" where
  "add_output p2pkh tx_hash is_coinbase item s =
     (case item of (n, out) \<Rightarrow>
       (let v = out_value out;
            ser = (tx_hash, int n);
            addr = get_txout_address p2pkh out
        in case addr of
             None \<Rightarrow> s
           | Some a \<Rightarrow>
               if a \<noteq> [] \<and> is_mine s addr then
                 (let d = dict_get (txo s) tx_hash [];
                      d1 = AList.update a (dict_get d a [] @ [(int n, v, is_coinbase)]) d;
                      s1 = s\<lparr>txo := AList.update tx_hash d1 (txo s)\<rparr>;
                      s2 = s1\<lparr>spent_outpoints := dd_touch tx_hash (spent_outpoints s1)\<rparr>;
                      next_tx = map_of (dict_get (spent_outpoints s2) tx_hash []) (int n)
                  in case next_tx of
                       None \<Rightarrow> s2
                     | Some nt \<Rightarrow> give_value_to_spender nt a ser v s2)
               else s))"

text \<open>Everything of \<^verbatim>\<open>add_transaction\<close> after the conflicts are resolved: the inputs,
  the outputs, the local history and \<^verbatim>\<open>self.transactions[tx_hash] = tx\<close>.\<close>

definition index_transaction ::
  "(string \<Rightarrow> address) \<Rightarrow> txid \<Rightarrow> transaction \<Rightarrow> bool \<Rightarrow> state \<Rightarrow> state" where
  "index_transaction p2pkh tx_hash tx is_coinbase s =
     (let s1 = s\<lparr>txi := AList.update tx_hash [] (txi s)\<rparr>;
          s2 = fold (add_input tx_hash) (inputs tx) s1;
          s3 = s2\<lparr>txo := AList.update tx_hash [] (txo s2)\<rparr>;
          s4 = fold (add_output p2pkh tx_hash is_coinbase) (enumerate 0 (outputs tx)) s3;
          s5 = add_tx_to_local_history tx_hash s4
      in s5\<lparr>transactions := AList.update tx_hash tx (transactions s5)\<rparr>)"

text \<open>\<^verbatim>\<open>add_transaction(tx_hash, tx, allow_unrelated)\<close>. The three \<^verbatim>\<open>assert\<close>s come
  first (a \<^verbatim>\<open>Transaction\<close> object is always true), then \<^verbatim>\<open>tx.inputs()[0]\<close>, which
  raises \<^verbatim>\<open>IndexError\<close> on a transaction without inputs. \<open>depth\<close> is the recursion depth
  left for \<^verbatim>\<open>get_depending_transactions\<close>.\<close>

definition add_transaction ::
  "(string \<Rightarrow> address) \<Rightarrow> nat \<Rightarrow> txid \<Rightarrow> transaction \<Rightarrow> bool \<Rightarrow> state \<Rightarrow>
   (error + bool) \<times> state" where
  "add_transaction p2pkh depth tx_hash tx allow_unrelated s =
     (if tx_hash = [] then (Inl AssertionError, s)
      else if \<not> is_complete tx then (Inl AssertionError, s)
      else
        (case inputs tx of
           [] \<Rightarrow> (Inl IndexError, s)
         | txin0 # ins \<Rightarrow>
             let is_coinbase = (in_type txin0 = ''coinbase'');
                 tx_height = height (get_tx_height s tx_hash)
             in if \<not> allow_unrelated \<and> \<not> has_mine_input s tx \<and> \<not> has_mine_output p2pkh s tx
                then (Inl UnrelatedTransactionException, s)
                else
                  (case get_conflicting_transactions tx_hash tx s of
                     (Inl e, s1) \<Rightarrow> (Inl e, s1)
                   | (Inr conflicting_txns, s1) \<Rightarrow>
                       (case resolve_conflicts depth tx_height conflicting_txns s1 of
                          (Inl e, s2) \<Rightarrow> (Inl e, s2)
                        | (Inr False, s2) \<Rightarrow> (Inr False, s2)
                        | (Inr True, s2) \<Rightarrow>
                            (Inr True, index_transaction p2pkh tx_hash tx is_coinbase s2)))))"

subsection \<open>Callbacks of the synchronizer\<close>

definition receive_tx_callback ::
  "(string \<Rightarrow> address) \<Rightarrow> nat \<Rightarrow> txid \<Rightarrow> transaction \<Rightarrow> int \<Rightarrow> state \<Rightarrow>
   (error + bool) \<times> state" where
  "receive_tx_callback p2pkh depth tx_hash tx tx_height s =
     add_transaction p2pkh depth tx_hash tx True (add_unverified_tx tx_hash tx_height s)"

text \<open>The block \<^verbatim>\<open>with self.lock:\<close> of \<^verbatim>\<open>receive_history_callback\<close>.\<close>

definition forget_retracted :: "(txid \<times> int) list \<Rightarrow> txid \<times> int \<Rightarrow> state \<Rightarrow> state" where
  "forget_retracted hist item s =
     (case item of (tx_hash, h) \<Rightarrow>
        if (tx_hash, h) \<notin> set hist then
          remove_spv_proof_for_tx tx_hash
            (s\<lparr>unverified_tx := AList.delete tx_hash (unverified_tx s),
               verified_tx := AList.delete tx_hash (verified_tx s)\<rparr>)
        else s)"

definition receive_history_locked :: "address \<Rightarrow> (txid \<times> int) list \<Rightarrow> state \<Rightarrow> state" where
  "receive_history_locked addr hist s =
     (let old_hist = get_address_history s addr;
          s1 = fold (forget_retracted hist) old_hist s
      in s1\<lparr>history := AList.update addr hist (history s1)\<rparr>)"

text \<open>The loop \<^verbatim>\<open>for tx_hash, tx_height in hist:\<close>; an exception of
  \<^verbatim>\<open>add_transaction\<close> ends the callback.\<close>

fun receive_history_loop ::
  "(string \<Rightarrow> address) \<Rightarrow> nat \<Rightarrow> (txid \<times> int) list \<Rightarrow> state \<Rightarrow> (error + unit) \<times> state" where
  "receive_history_loop p2pkh depth [] s = (Inr (), s)"
| "receive_history_loop p2pkh depth ((tx_hash, tx_height) # hist) s =
     (let s1 = add_unverified_tx tx_hash tx_height s in
      case map_of (transactions s1) tx_hash of
        None \<Rightarrow> receive_history_loop p2pkh depth hist s1
      | Some tx \<Rightarrow>
          (case add_transaction p2pkh depth tx_hash tx True s1 of
             (Inl e, s2) \<Rightarrow> (Inl e, s2)
           | (Inr b, s2) \<Rightarrow> receive_history_loop p2pkh depth hist s2))"

definition receive_history_callback ::
  "(string \<Rightarrow> address) \<Rightarrow> nat \<Rightarrow> address \<Rightarrow> (txid \<times> int) list \<Rightarrow> (txid \<times> int) list \<Rightarrow>
   state \<Rightarrow> (error + unit) \<times> state" where
  "receive_history_callback p2pkh depth addr hist fees s =
     (case receive_history_loop p2pkh depth hist (receive_history_locked addr hist s) of
        (Inl e, s1) \<Rightarrow> (Inl e, s1)
      | (Inr u, s1) \<Rightarrow>
          (Inr (), s1\<lparr>tx_fees := fold (\<lambda>(k, v). AList.update k v) fees (tx_fees s1)\<rparr>))"

subsection \<open>Persistence and reset\<close>

definition serialized :: "state \<Rightarrow> blobs" where
  "serialized s =
     \<lparr>blob_transactions = map (\<lambda>(k, v). (k, raw v)) (transactions s),
      blob_txi = txi s,
      blob_txo = txo s,
      blob_tx_fees = tx_fees s,
      blob_addr_history = history s,
      blob_spent_outpoints = spent_outpoints s\<rparr>"

definition save_transactions :: "state \<Rightarrow> state" where
  "save_transactions s = s\<lparr>storage := Some (serialized s)\<rparr>"

definition clear_history :: "state \<Rightarrow> state" where
  "clear_history s =
     save_transactions
       (s\<lparr>txi := [], txo := [], tx_fees := [], spent_outpoints := [], history := [],
          verified_tx := [], transactions := []\<rparr>)"

text \<open>\<^verbatim>\<open>add_address\<close>; the \<^verbatim>\<open>up_to_date\<close> flag and the synchronizer's queue are not
  part of the model.\<close>

definition add_address :: "address \<Rightarrow> state \<Rightarrow> state" where
  "add_address addr s =
     (if \<not> dict_in addr (history s) then s\<lparr>history := AList.update addr [] (history s)\<rparr>
      else s)"

subsection \<open>Queries\<close>

text \<open>\<^verbatim>\<open>get_addr_io\<close>: \<open>received\<close> maps an outpoint to \<open>(height, value, is_cb)\<close>,
  \<open>sent\<close> maps an outpoint to the height of the spending transaction.\<close>

definition get_addr_io ::
  "state \<Rightarrow> address \<Rightarrow> (outpoint \<times> int \<times> int \<times> bool) list \<times> (outpoint \<times> int) list" where
  "get_addr_io s addr =
     (let h = get_address_history s addr;
          received =
            fold (\<lambda>(tx_hash, ht) received.
                    let l = dict_get (dict_get (txo s) tx_hash []) addr [] in
                    fold (\<lambda>(n, v, is_cb). AList.update (tx_hash, n) (ht, v, is_cb)) l received)
                 h [];
          sent =
            fold (\<lambda>(tx_hash, ht) sent.
                    let l = dict_get (dict_get (txi s) tx_hash []) addr [] in
                    fold (\<lambda>(ser, v). AList.update ser ht) l sent)
                 h []
      in (received, sent))"

text \<open>\<^verbatim>\<open>get_addr_balance\<close>: confirmed, unconfirmed and unmatured amounts.\<close>

definition get_addr_balance :: "state \<Rightarrow> address \<Rightarrow> int \<times> int \<times> int" where
  "get_addr_balance s addr =
     (case get_addr_io s addr of (received, sent) \<Rightarrow>
        fold (\<lambda>(ser, (tx_height, v, is_cb)) (c, u, x).
                case (if is_cb \<and> tx_height + COINBASE_MATURITY > local_height s
                      then (c, u, x + v)
                      else if tx_height > 0 then (c + v, u, x)
                      else (c, u + v, x)) of
                  (c1, u1, x1) \<Rightarrow>
                    (case map_of sent ser of
                       None \<Rightarrow> (c1, u1, x1)
                     | Some sent_height \<Rightarrow>
                         if sent_height > 0 then (c1 - v, u1, x1) else (c1, u1 - v, x1)))
             received (0, 0, 0))"

text \<open>\<^verbatim>\<open>get_balance(domain)\<close>, with \<^verbatim>\<open>domain = set(domain)\<close>.\<close>

definition get_balance :: "state \<Rightarrow> address list \<Rightarrow> int \<times> int \<times> int" where
  "get_balance s domain =
     fold (\<lambda>addr (cc, uu, xx).
             case get_addr_balance s addr of (c, u, x) \<Rightarrow> (cc + c, uu + u, xx + x))
          (remdups domain) (0, 0, 0)"

text \<open>\<^verbatim>\<open>if domain is None: domain = self.history.keys()\<close> and
  \<^verbatim>\<open>domain = set(domain)\<close>.\<close>

definition history_domain :: "state \<Rightarrow> address list option \<Rightarrow> address list" where
  "history_domain s domain =
     remdups (case domain of None \<Rightarrow> map fst (history s) | Some d \<Rightarrow> d)"

subsection \<open>The history view\<close>

text \<open>Floats. \<^verbatim>\<open>get_txpos\<close> computes \<^verbatim>\<open>1e9 - height\<close> in float arithmetic. Every float that
  occurs is a whole number and is kept as the integer it denotes; Python compares an
  \<^verbatim>\<open>int\<close> with a \<^verbatim>\<open>float\<close> by value. A double has 53 significant bits:
  \<open>round_magnitude\<close> rounds a non-negative integer to the nearest double, a tie to the
  even one, and \<open>round_double\<close> does so for any sign. \<open>float_of_int\<close> is the conversion of
  an \<^verbatim>\<open>int\<close> operand, which raises \<^verbatim>\<open>OverflowError\<close> when the rounded value is beyond the
  largest double; \<open>float_sub\<close> is the subtraction of two floats (with a first operand
  \<^verbatim>\<open>1e9\<close> and a second operand that is a double and not positive, the result is a double
  again, not infinity).\<close>

function bit_length :: "int \<Rightarrow> nat" where
  "bit_length i = (if i \<le> 0 then 0 else Suc (bit_length (i div 2)))"
  by pat_completeness auto
termination
  by (relation "measure nat") auto

declare bit_length.simps [simp del]

definition round_magnitude :: "int \<Rightarrow> int" where
  "round_magnitude m =
     (if bit_length m \<le> 53 then m
      else
        let e = bit_length m - 53;
            q = m div 2 ^ e;
            r = m mod 2 ^ e;
            half = 2 ^ (e - 1)
        in if r < half \<or> (r = half \<and> even q) then q * 2 ^ e else (q + 1) * 2 ^ e)"

definition round_double :: "int \<Rightarrow> int" where
  "round_double i = (if i < 0 then - round_magnitude (- i) else round_magnitude i)"

definition float_of_int :: "int \<Rightarrow> error + int" where
  "float_of_int i =
     (let f = round_double i in if 2 ^ 1024 \<le> \<bar>f\<bar> then Inl OverflowError else Inr f)"

definition float_sub :: "int \<Rightarrow> int \<Rightarrow> int" where
  "float_sub a b = round_double (a - b)"

text \<open>\<^verbatim>\<open>get_txpos\<close>: the pair \<^verbatim>\<open>(height, txpos)\<close>. The second component is \<^verbatim>\<open>None\<close> for a
  verified transaction whose \<^verbatim>\<open>TxMinedInfo\<close> carries no position.\<close>

type_synonym sort_key = "int \<times> int option"

definition get_txpos :: "state \<Rightarrow> txid \<Rightarrow> error + sort_key" where
  "get_txpos s tx_hash =
     (case map_of (verified_tx s) tx_hash of
        Some info \<Rightarrow> Inr (height info, txpos info)
      | None \<Rightarrow>
          (case map_of (unverified_tx s) tx_hash of
             Some h \<Rightarrow>
               if h > 0 then Inr (h, Some 0)
               else (case float_of_int h of
                       Inl e \<Rightarrow> Inl e
                     | Inr f \<Rightarrow> Inr (float_sub 1000000000 f, Some 0))
           | None \<Rightarrow> Inr (1000000001, Some 0)))"

text \<open>\<^verbatim>\<open>history.sort(key=lambda x: self.get_txpos(x[0]), reverse=True)\<close>. The keys are
  computed first, in list order. Python compares two tuples at the first component in
  which they differ (\<^verbatim>\<open>==\<close>); \<^verbatim>\<open>None < 0\<close> raises \<^verbatim>\<open>TypeError\<close>. So two keys cannot be
  compared when their first components are equal and exactly one second component is
  \<^verbatim>\<open>None\<close>. A comparison sort has to compare two elements that are neighbours in the
  order it produces, unless they are equal; when two keys of the list cannot be
  compared, the keys with that first component and no position and the keys with that
  first component and the least position are such neighbours, so the sort raises
  \<^verbatim>\<open>TypeError\<close>. When all keys can be compared, the order of Python is the lexicographic
  one, and the sort is stable: with \<^verbatim>\<open>reverse=True\<close> the list is reversed, sorted in
  ascending order, and reversed again.\<close>

definition comparable :: "sort_key \<Rightarrow> sort_key \<Rightarrow> bool" where
  "comparable k1 k2 =
     (fst k1 \<noteq> fst k2 \<or> snd k1 = snd k2 \<or> (snd k1 \<noteq> None \<and> snd k2 \<noteq> None))"

fun all_comparable :: "sort_key list \<Rightarrow> bool" where
  "all_comparable [] = True"
| "all_comparable (k # ks) = (list_all (comparable k) ks \<and> all_comparable ks)"

fun collect_keys :: "(error + 'a) list \<Rightarrow> error + 'a list" where
  "collect_keys [] = Inr []"
| "collect_keys (x # xs) =
     (case x of
        Inl e \<Rightarrow> Inl e
      | Inr v \<Rightarrow> (case collect_keys xs of Inl e \<Rightarrow> Inl e | Inr vs \<Rightarrow> Inr (v # vs)))"

definition sort_reverse :: "('a \<Rightarrow> error + sort_key) \<Rightarrow> 'a list \<Rightarrow> error + 'a list" where
  "sort_reverse key xs =
     (case collect_keys (map key xs) of
        Inl e \<Rightarrow> Inl e
      | Inr keys \<Rightarrow>
          if all_comparable keys then Inr (map snd (rev (sort_key fst (rev (zip keys xs)))))
          else Inl TypeError)"

text \<open>A loop whose body can raise: the first exception ends it.\<close>

fun fold_err :: "('a \<Rightarrow> 'b \<Rightarrow> error + 'b) \<Rightarrow> 'a list \<Rightarrow> 'b \<Rightarrow> error + 'b" where
  "fold_err f [] acc = Inr acc"
| "fold_err f (x # xs) acc =
     (case f x acc of Inl e \<Rightarrow> Inl e | Inr acc1 \<Rightarrow> fold_err f xs acc1)"

text \<open>The token overlay. \<^verbatim>\<open>self.omni\<close> is set by \<^verbatim>\<open>__init__\<close> for every object, so
  \<^verbatim>\<open>hasattr(self, 'omni')\<close> holds; \<^verbatim>\<open>self.omni_tx\<close> is set only when \<^verbatim>\<open>self.omni\<close> is true
  (\<open>None\<close>: the attribute is missing). An entry of \<^verbatim>\<open>omni_tx\<close> is the dict that
  \<^verbatim>\<open>omni_txdata\<close> builds from the answer of the daemon, with the keys \<^verbatim>\<open>amount\<close>,
  \<^verbatim>\<open>sender\<close>, \<^verbatim>\<open>reference\<close>, or the empty dict; \<open>'j\<close> is the type of the values the
  daemon delivers. \<open>getBalance\<close> is the balance the daemon reports for an address,
  \<open>None\<close> when anything in the \<^verbatim>\<open>try\<close> block before \<^verbatim>\<open>Decimal\<close> raises.

  \<^verbatim>\<open>decimal.Decimal\<close> is not part of this file. Its arithmetic rounds to the precision of
  the context and raises on signalling operands, so the constructor and the operations
  that the code uses are parameters, each with an exception as a possible result;
  \<open>dec_zero\<close> is \<^verbatim>\<open>Decimal(0)\<close>. An overlay amount is the \<^verbatim>\<open>int\<close> 0 or a \<^verbatim>\<open>Decimal\<close>.\<close>

datatype 'd omni_num = IntZero | Dec 'd

record ('j, 'd) decimal_ops =
  Decimal :: "'j \<Rightarrow> error + 'd"
  dec_zero :: 'd
  dec_neg :: "'d \<Rightarrow> error + 'd"
  dec_add :: "'d \<Rightarrow> 'd \<Rightarrow> error + 'd"
  dec_sub :: "'d \<Rightarrow> 'd \<Rightarrow> error + 'd"
  dec_ne_zero :: "'d \<Rightarrow> error + bool"

record 'j omni_data =
  amount :: "'j option"
  sender :: "string option"
  reference :: "string option"

record 'j overlay =
  omni :: bool
  omni_tx :: "(txid \<times> 'j omni_data) list option"
  getBalance :: "address \<Rightarrow> 'j option"

text \<open>\<^verbatim>\<open>get_omni_delta(tx_hash, address)\<close>; \<^verbatim>\<open>Decimal(tx_data['amount'])\<close> is evaluated
  before the sender and the reference are looked at.\<close>

definition get_omni_delta ::
  "('j, 'd) decimal_ops \<Rightarrow> 'j overlay \<Rightarrow> txid \<Rightarrow> address \<Rightarrow> error + 'd omni_num" where
  "get_omni_delta D ov tx_hash addr =
     (case omni_tx ov of
        None \<Rightarrow> Inl AttributeError
      | Some otx \<Rightarrow>
          (case map_of otx tx_hash of
             None \<Rightarrow> Inr IntZero
           | Some tx_data \<Rightarrow>
               (case (amount tx_data, sender tx_data, reference tx_data) of
                  (Some a, Some sd, Some rf) \<Rightarrow>
                    (case Decimal D a of
                       Inl e \<Rightarrow> Inl e
                     | Inr v \<Rightarrow>
                         if sd = addr then
                           (case dec_neg D v of Inl e \<Rightarrow> Inl e | Inr nv \<Rightarrow> Inr (Dec nv))
                         else if rf = addr then Inr (Dec v)
                         else Inr IntZero)
                | _ \<Rightarrow> Inr IntZero)))"

definition omni_ne_zero :: "('j, 'd) decimal_ops \<Rightarrow> 'd omni_num \<Rightarrow> error + bool" where
  "omni_ne_zero D x = (case x of IntZero \<Rightarrow> Inr False | Dec v \<Rightarrow> dec_ne_zero D v)"

text \<open>Step 1 of \<^verbatim>\<open>get_history\<close>, the body of \<^verbatim>\<open>for tx_hash, height in h:\<close>. \<^verbatim>\<open>tx_deltas\<close>
  is a \<^verbatim>\<open>defaultdict(int)\<close>; a delta that is \<^verbatim>\<open>None\<close> makes the sum \<^verbatim>\<open>None\<close>. When the
  overlay delta is not 0 the key is in \<^verbatim>\<open>tx_deltas\<close> already, so the safety check does
  nothing.\<close>

definition accumulate_delta ::
  "('j, 'd) decimal_ops \<Rightarrow> 'j overlay \<Rightarrow> state \<Rightarrow> address \<Rightarrow> txid \<times> int \<Rightarrow>
   (txid \<times> int option) list \<times> (txid \<times> 'd) list \<Rightarrow>
   error + (txid \<times> int option) list \<times> (txid \<times> 'd) list" where
  "accumulate_delta D ov s addr item acc =
     (case item of (tx_hash, ht) \<Rightarrow>
      case acc of (tx_deltas, omni_deltas) \<Rightarrow>
       (let delta = Some (get_tx_delta s tx_hash addr);
            cur = dict_get tx_deltas tx_hash (Some 0);
            tx_deltas1 =
              (case (delta, cur) of
                 (Some d, Some c) \<Rightarrow> AList.update tx_hash (Some (c + d)) tx_deltas
               | _ \<Rightarrow> AList.update tx_hash None tx_deltas)
        in case get_omni_delta D ov tx_hash addr of
             Inl e \<Rightarrow> Inl e
           | Inr omni_delta \<Rightarrow>
               (case omni_ne_zero D omni_delta of
                  Inl e \<Rightarrow> Inl e
                | Inr False \<Rightarrow> Inr (tx_deltas1, omni_deltas)
                | Inr True \<Rightarrow>
                    (case omni_delta of
                       IntZero \<Rightarrow> Inr (tx_deltas1, omni_deltas)
                     | Dec v \<Rightarrow>
                         (case map_of omni_deltas tx_hash of
                            None \<Rightarrow> Inr (tx_deltas1, AList.update tx_hash v omni_deltas)
                          | Some od \<Rightarrow>
                              (case dec_add D od v of
                                 Inl e \<Rightarrow> Inl e
                               | Inr od1 \<Rightarrow>
                                   Inr (tx_deltas1, AList.update tx_hash od1 omni_deltas)))))))"

definition collect_deltas ::
  "('j, 'd) decimal_ops \<Rightarrow> 'j overlay \<Rightarrow> state \<Rightarrow> address list \<Rightarrow>
   error + (txid \<times> int option) list \<times> (txid \<times> 'd) list" where
  "collect_deltas D ov s domain =
     fold_err (\<lambda>addr. fold_err (accumulate_delta D ov s addr) (get_address_history s addr))
       domain ([], [])"

text \<open>\<^verbatim>\<open>omni_addr_balance(domain)\<close>: the bare \<^verbatim>\<open>except\<close> swallows every exception of the
  body.\<close>

definition omni_addr_balance :: "('j, 'd) decimal_ops \<Rightarrow> 'j overlay \<Rightarrow> address list \<Rightarrow> 'd" where
  "omni_addr_balance D ov domain =
     fold (\<lambda>addr total.
             case getBalance ov addr of
               None \<Rightarrow> total
             | Some b \<Rightarrow>
                 (case Decimal D b of
                    Inl e \<Rightarrow> total
                  | Inr v \<Rightarrow> (case dec_add D total v of Inl e \<Rightarrow> total | Inr t \<Rightarrow> t)))
          domain (dec_zero D)"

text \<open>Step 2: the rows before the sort, \<^verbatim>\<open>(tx_hash, tx_mined_status, delta, omni_delta)\<close>,
  and the rows of the result,
  \<^verbatim>\<open>(tx_hash, tx_mined_status, delta, balance, omni_delta, omni_balance)\<close>.\<close>

type_synonym 'd history_item = "txid \<times> TxMinedInfo \<times> int option \<times> 'd omni_num"
type_synonym 'd history_row =
  "txid \<times> TxMinedInfo \<times> int option \<times> int option \<times> 'd omni_num \<times> 'd omni_num"

definition history_items ::
  "state \<Rightarrow> (txid \<times> int option) list \<Rightarrow> (txid \<times> 'd) list \<Rightarrow> 'd history_item list" where
  "history_items s tx_deltas omni_deltas =
     map (\<lambda>(tx_hash, delta).
            (tx_hash, get_tx_height s tx_hash, delta,
             (case map_of omni_deltas tx_hash of None \<Rightarrow> IntZero | Some od \<Rightarrow> Dec od)))
         tx_deltas"

text \<open>Step 3, the body of the walk that attaches the running balance. With an
  \<^verbatim>\<open>omni_balance\<close> that is the \<^verbatim>\<open>int\<close> 0, \<^verbatim>\<open>omni_balance -= omni_delta\<close> subtracts from
  \<^verbatim>\<open>Decimal(0)\<close>.\<close>

definition add_balance ::
  "('j, 'd) decimal_ops \<Rightarrow> 'd history_item \<Rightarrow>
   'd history_row list \<times> int option \<times> 'd omni_num \<Rightarrow>
   error + 'd history_row list \<times> int option \<times> 'd omni_num" where
  "add_balance D item acc =
     (case item of (tx_hash, tx_mined_status, delta, omni_delta) \<Rightarrow>
      case acc of (h2, balance, omni_balance) \<Rightarrow>
        (let h2a = h2 @ [(tx_hash, tx_mined_status, delta, balance, omni_delta, omni_balance)];
             balance1 = (case (balance, delta) of
                           (Some b, Some d) \<Rightarrow> Some (b - d)
                         | _ \<Rightarrow> None)
         in case omni_ne_zero D omni_delta of
              Inl e \<Rightarrow> Inl e
            | Inr False \<Rightarrow> Inr (h2a, balance1, omni_balance)
            | Inr True \<Rightarrow>
                (case omni_delta of
                   IntZero \<Rightarrow> Inr (h2a, balance1, omni_balance)
                 | Dec v \<Rightarrow>
                     (case dec_sub D (case omni_balance of IntZero \<Rightarrow> dec_zero D | Dec b \<Rightarrow> b) v of
                        Inl e \<Rightarrow> Inl e
                      | Inr b1 \<Rightarrow> Inr (h2a, balance1, Dec b1)))))"

text \<open>\<^verbatim>\<open>get_history(domain)\<close>. \<open>history_steps\<close> is the method up to the end of the walk:
  it gives the rows in the order of the walk and the balance that is left.
  \<^verbatim>\<open>get_balance\<close> and \<^verbatim>\<open>omni_addr_balance\<close> do not raise.\<close>

definition history_steps ::
  "('j, 'd) decimal_ops \<Rightarrow> 'j overlay \<Rightarrow> state \<Rightarrow> address list \<Rightarrow>
   error + 'd history_row list \<times> int option" where
  "history_steps D ov s domain =
     (case collect_deltas D ov s domain of
        Inl e \<Rightarrow> Inl e
      | Inr (tx_deltas, omni_deltas) \<Rightarrow>
          (case sort_reverse (\<lambda>x. get_txpos s (fst x)) (history_items s tx_deltas omni_deltas) of
             Inl e \<Rightarrow> Inl e
           | Inr hist \<Rightarrow>
               (case get_balance s domain of (c, u, x) \<Rightarrow>
                  (let omni_balance =
                         (if omni ov then Dec (omni_addr_balance D ov domain) else IntZero)
                   in (case fold_err (add_balance D) hist
                              ([], Some (c + u + x), omni_balance) of
                         Inl e \<Rightarrow> Inl e
                       | Inr (h2, balance, omni_balance1) \<Rightarrow> Inr (h2, balance))))))"

definition get_history ::
  "('j, 'd) decimal_ops \<Rightarrow> 'j overlay \<Rightarrow> state \<Rightarrow> address list option \<Rightarrow>
   error + 'd history_row list" where
  "get_history D ov s domain =
     (let domain = history_domain s domain in
      case history_steps D ov s domain of
        Inl e \<Rightarrow> Inl e
      | Inr (h2, balance) \<Rightarrow>
          let h2 = rev h2 in
          if balance \<noteq> None \<and> balance \<noteq> Some 0 then Inr [] else Inr h2)"

subsection \<open>Effect of a transaction on the wallet\<close>





subsection \<open>Sequences of operations\<close>

text \<open>The two verification maps share no key.\<close>

definition verified_unverified_disjoint :: "state \<Rightarrow> bool" where
  "verified_unverified_disjoint s =
     (fst ` set (verified_tx s) \<inter> fst ` set (unverified_tx s) = {})"

text \<open>The public methods that change the engine, and what running a sequence of them
  from a state gives. A method that raises leaves the state it had reached.\<close>

datatype 'h operation =
    Add_address address
  | Add_transaction "string \<Rightarrow> address" nat txid transaction bool
  | Remove_transaction txid
  | Receive_tx_callback "string \<Rightarrow> address" nat txid transaction int
  | Receive_history_callback "string \<Rightarrow> address" nat address "(txid \<times> int) list"
      "(txid \<times> int) list"
  | Add_unverified_tx txid int
  | Remove_unverified_tx txid int
  | Add_verified_tx txid TxMinedInfo
  | Undo_verifications "int \<Rightarrow> 'h option" "'h \<Rightarrow> string" int
  | Get_conflicting_transactions txid transaction
  | Save_transactions
  | Clear_history

fun run_operation :: "'h operation \<Rightarrow> state \<Rightarrow> state" where
  "run_operation (Add_address a) s = add_address a s"
| "run_operation (Add_transaction p2pkh depth t tx allow) s =
     snd (add_transaction p2pkh depth t tx allow s)"
| "run_operation (Remove_transaction t) s = snd (remove_transaction t s)"
| "run_operation (Receive_tx_callback p2pkh depth t tx h) s =
     snd (receive_tx_callback p2pkh depth t tx h s)"
| "run_operation (Receive_history_callback p2pkh depth a hist fees) s =
     snd (receive_history_callback p2pkh depth a hist fees s)"
| "run_operation (Add_unverified_tx t h) s = add_unverified_tx t h s"
| "run_operation (Remove_unverified_tx t h) s = remove_unverified_tx t h s"
| "run_operation (Add_verified_tx t info) s = add_verified_tx t info s"
| "run_operation (Undo_verifications read_header hash_header h) s =
     snd (undo_verifications read_header hash_header h s)"
| "run_operation (Get_conflicting_transactions t tx) s =
     snd (get_conflicting_transactions t tx s)"
| "run_operation Save_transactions s = save_transactions s"
| "run_operation Clear_history s = clear_history s"

definition run_operations :: "'h operation list \<Rightarrow> state \<Rightarrow> state" where
  "run_operations ops s = fold run_operation ops s"

text \<open>Two states with the same verification maps and the same server history.\<close>

definition same_ledger :: "state \<Rightarrow> state \<Rightarrow> bool" where
  "same_ledger s s' =
     (verified_tx s' = verified_tx s \<and> unverified_tx s' = unverified_tx s \<and>
      history s' = history s)"

subsection \<open>The local history as an index of \<^verbatim>\<open>txi\<close> and \<^verbatim>\<open>txo\<close>\<close>

text \<open>For every address, the txids of \<^verbatim>\<open>_history_local\<close> are those that have the
  address as a key of their \<^verbatim>\<open>txi\<close> or \<^verbatim>\<open>txo\<close> entry.\<close>

definition local_history_consistent :: "state \<Rightarrow> bool" where
  "local_history_consistent s =
     (\<forall>a t. t \<in> set (dict_get (history_local s) a []) \<longleftrightarrow> a \<in> set (tx_addresses s t))"

subsection \<open>Spenders and descendants\<close>

text \<open>The transactions that \<^verbatim>\<open>spent_outpoints\<close> records as spending an output of \<open>h\<close>
  (\<^verbatim>\<open>self.spent_outpoints[h].values()\<close>), the graph they form, and the transactions that
  spend, through any number of steps, an output of \<open>c\<close>.\<close>

definition spenders :: "spent_map \<Rightarrow> txid \<Rightarrow> txid set" where
  "spenders sp h = snd ` set (dict_get sp h [])"

definition spend_edges :: "spent_map \<Rightarrow> (txid \<times> txid) set" where
  "spend_edges sp = {(h, t). t \<in> spenders sp h}"


text \<open>Every recorded spender is a known transaction.\<close>

definition spenders_known :: "state \<Rightarrow> bool" where
  "spenders_known s = (\<forall>h. \<forall>t \<in> spenders (spent_outpoints s) h. dict_in t (transactions s))"


text \<open>The outpoints that the loops over \<^verbatim>\<open>tx.inputs()\<close> visit: those of the inputs
  that are not coinbase.\<close>

definition outpoints :: "txin list \<Rightarrow> (txid \<times> int) set" where
  "outpoints ins =
     {(prevout_hash i, prevout_n i) | i. i \<in> set ins \<and> in_type i \<noteq> ''coinbase''}"

text \<open>What the two loops over the inputs do to \<^verbatim>\<open>spent_outpoints\<close> when nothing is in
  the way: the \<^verbatim>\<open>defaultdict\<close> reads of \<^verbatim>\<open>get_conflicting_transactions\<close>, and the
  assignments \<^verbatim>\<open>self.spent_outpoints[prevout_hash][prevout_n] = tx_hash\<close> of
  \<^verbatim>\<open>add_transaction\<close>.\<close>

definition touch_inputs :: "txin list \<Rightarrow> spent_map \<Rightarrow> spent_map" where
  "touch_inputs ins sp =
     fold (\<lambda>i sp'. if in_type i = ''coinbase'' then sp' else dd_touch (prevout_hash i) sp')
       ins sp"

definition set_inputs :: "txid \<Rightarrow> txin list \<Rightarrow> spent_map \<Rightarrow> spent_map" where
  "set_inputs t ins sp =
     fold (\<lambda>i sp'. if in_type i = ''coinbase'' then sp'
                    else sp_set (prevout_hash i) (prevout_n i) t sp')
       ins sp"

text \<open>\<open>strip K t sp\<close> is \<open>sp\<close> without the spends recorded for \<open>t\<close> and without the
  empty submaps under the keys of \<open>K\<close>. \<open>sp_inv sp0 t K Vs sp\<close> relates a map \<open>sp\<close> reached
  while \<open>t\<close> is indexed or removed to the map \<open>sp0\<close> before: the keys are distinct,
  stripping gives \<open>sp0\<close> back, every spend of \<open>sp\<close> is one of \<open>t\<close> or one of \<open>sp0\<close>, and
  \<open>t\<close> is recorded only at the outpoints of \<open>Vs\<close>. \<open>no_empty_inputs\<close> says that no key of
  \<open>K\<close> other than \<open>t\<close> has an empty submap.\<close>

definition strip :: "txid set \<Rightarrow> txid \<Rightarrow> spent_map \<Rightarrow> spent_map" where
  "strip K t sp =
     filter (\<lambda>(h, d). \<not> (h \<in> K \<and> d = []))
       (map (\<lambda>(h, d). (h, filter (\<lambda>(n, x). x \<noteq> t) d)) sp)"

definition sp_inv ::
  "spent_map \<Rightarrow> txid \<Rightarrow> txid set \<Rightarrow> (txid \<times> int) set \<Rightarrow> spent_map \<Rightarrow> bool" where
  "sp_inv sp0 t K Vs sp =
     (distinct (map fst sp) \<and> strip K t sp = sp0 \<and>
      (\<forall>h n x. (n, x) \<in> set (dict_get sp h []) \<longrightarrow> x = t \<or> (n, x) \<in> set (dict_get sp0 h [])) \<and>
      (\<forall>h n. (n, t) \<in> set (dict_get sp h []) \<longrightarrow> (h, n) \<in> Vs))"

definition no_empty_inputs :: "txid set \<Rightarrow> txid \<Rightarrow> spent_map \<Rightarrow> bool" where
  "no_empty_inputs K t sp =
     (\<forall>h \<in> K. h \<noteq> t \<longrightarrow> dict_in h sp \<longrightarrow> dict_get sp h [] \<noteq> [])"

text \<open>The part of the state that the loop over the outputs of \<open>t\<close> keeps, from \<open>s0\<close> to
  \<open>s'\<close>: it writes the entries of \<open>t\<close>, the last of \<^verbatim>\<open>txi\<close> and \<^verbatim>\<open>txo\<close>, and may create the
  submap \<^verbatim>\<open>spent_outpoints[t]\<close>.\<close>

definition out_frame ::
  "txid \<Rightarrow> (txid \<times> txi_entry) list \<Rightarrow> (txid \<times> txo_entry) list \<Rightarrow> state \<Rightarrow> state \<Rightarrow> bool" where
  "out_frame t base base_o s0 s' =
     (transactions s' = transactions s0 \<and> tx_fees s' = tx_fees s0 \<and> history s' = history s0 \<and>
      (\<exists>X. txi s' = base @ [(t, X)]) \<and> (\<exists>Y. txo s' = base_o @ [(t, Y)]) \<and>
      (spent_outpoints s' = spent_outpoints s0 \<or>
       spent_outpoints s' = dd_touch t (spent_outpoints s0)))"

subsection \<open>Resolution of inputs and outputs, as the specification words it\<close>

text \<open>An input resolves to a wallet address via the address it carries or via the \<^verbatim>\<open>txo\<close>
  lookup of its outpoint. The address it carries is \<^verbatim>\<open>txi.get('address')\<close> unless that is
  empty or \<^verbatim>\<open>(pubkey)\<close>; the lookup gives the first address of \<^verbatim>\<open>txo[prevout_hash]\<close> that
  records an output with the index \<^verbatim>\<open>prevout_n\<close>. The lookup is used only for an input
  that carries no usable address. An output pays the address it names
  (\<^verbatim>\<open>TYPE_ADDRESS\<close>) or the address of the public key it names (\<^verbatim>\<open>TYPE_PUBKEY\<close>). These
  definitions do not use \<open>get_txin_address\<close>, \<open>find_output\<close> or \<open>get_txout_address\<close>; they
  are compared with them below.\<close>

definition embedded_address :: "txin \<Rightarrow> address option" where
  "embedded_address txin =
     (case in_address txin of
        None \<Rightarrow> None
      | Some a \<Rightarrow> if a = [] \<or> a = ''(pubkey)'' then None else Some a)"

definition outpoint_address :: "state \<Rightarrow> txin \<Rightarrow> address option" where
  "outpoint_address s txin =
     map_option fst
       (find (\<lambda>(addr, l). list_ex (\<lambda>(n, v, is_cb). n = prevout_n txin) l)
             (dict_get (txo s) (prevout_hash txin) []))"

definition input_resolves_to_wallet :: "state \<Rightarrow> txin \<Rightarrow> bool" where
  "input_resolves_to_wallet s txin =
     (case embedded_address txin of
        Some a \<Rightarrow> dict_in a (history s)
      | None \<Rightarrow>
          (case outpoint_address s txin of
             Some a \<Rightarrow> dict_in a (history s)
           | None \<Rightarrow> False))"

definition output_pays_wallet :: "(string \<Rightarrow> address) \<Rightarrow> state \<Rightarrow> txout \<Rightarrow> bool" where
  "output_pays_wallet p2pkh s out =
     (case out_type out of
        TYPE_ADDRESS \<Rightarrow> dict_in (out_address out) (history s)
      | TYPE_PUBKEY \<Rightarrow> dict_in (p2pkh (out_address out)) (history s)
      | TYPE_SCRIPT \<Rightarrow> False)"

subsection \<open>The history view, as the specification words it\<close>

text \<open>The delta and the running balance of a row, the sum of the deltas of a list of
  rows, and the balance \<^verbatim>\<open>c + u + x\<close> of the domain.\<close>

definition row_delta :: "'d history_row \<Rightarrow> int option" where
  "row_delta row = (case row of (tx_hash, tx_mined_status, delta, balance, od, ob) \<Rightarrow> delta)"

definition row_balance :: "'d history_row \<Rightarrow> int option" where
  "row_balance row = (case row of (tx_hash, tx_mined_status, delta, balance, od, ob) \<Rightarrow> balance)"

definition delta_sum :: "'d history_row list \<Rightarrow> int" where
  "delta_sum rows = (\<Sum>row \<leftarrow> rows. case row_delta row of None \<Rightarrow> 0 | Some d \<Rightarrow> d)"

definition domain_balance :: "state \<Rightarrow> address list \<Rightarrow> int" where
  "domain_balance s domain = (case get_balance s domain of (c, u, x) \<Rightarrow> c + u + x)"

text \<open>Chronological order: transactions in a block are ordered by the height of the
  block and, within a block, by their position; a transaction that is not in a block
  does not come before one that is (at a height below \<open>10\<^sup>9\<close>); a transaction that waits
  for an unconfirmed parent or is local does not come before an unconfirmed one.
  \<open>may_precede s t1 t2\<close> says that \<open>t1\<close> may stand before \<open>t2\<close>; the heights are those
  that the rows show (\<open>get_tx_height\<close>). The definition does not use \<open>get_txpos\<close>.\<close>

definition may_precede :: "state \<Rightarrow> txid \<Rightarrow> txid \<Rightarrow> bool" where
  "may_precede s t1 t2 =
     (let i1 = get_tx_height s t1; i2 = get_tx_height s t2;
          v1 = dict_in t1 (verified_tx s); v2 = dict_in t2 (verified_tx s)
      in (0 < height i1 \<and> 0 < height i2 \<longrightarrow> height i1 \<le> height i2) \<and>
         (v1 \<and> v2 \<and> height i1 = height i2 \<longrightarrow>
            (case (txpos i1, txpos i2) of (Some p1, Some p2) \<Rightarrow> p1 \<le> p2 | _ \<Rightarrow> True)) \<and>
         (\<not> v1 \<and> height i1 \<le> 0 \<longrightarrow> \<not> (0 < height i2 \<and> height i2 < 1000000000)) \<and>
         (\<not> v1 \<and> height i1 < 0 \<longrightarrow> \<not> (\<not> v2 \<and> height i2 = 0)))"

definition chronological :: "state \<Rightarrow> txid list \<Rightarrow> bool" where
  "chronological s ts = sorted_wrt (may_precede s) ts"

section \<open>Example states\<close>

text \<open>A wallet that watches the address \<open>A\<close> and knows no transaction yet, and the
  states of the scenarios that the properties below are run on.\<close>

definition fresh :: state where
  "fresh =
     \<lparr>transactions = [], history = [(''A'', [])], verified_tx = [], unverified_tx = [],
      tx_fees = [], txi = [], txo = [], spent_outpoints = [], history_local = [],
      verifier = True, spv_removed = [], local_height = 100, storage = None\<rparr>"

definition reorg_state :: state where
  "reorg_state =
     fresh\<lparr>verified_tx :=
             [(''T7'', \<lparr>height = 700, conf = None, timestamp = Some 1, txpos = Some 3,
                        header_hash = Some ''H''\<rparr>)],
           local_height := 710\<rparr>"

text \<open>The server reported \<open>T1\<close> at height 5 for \<open>A\<close>; the wallet never received its
  body, so the local index knows nothing of it.\<close>

definition retract_state :: state where
  "retract_state = snd (receive_history_callback (\<lambda>x. x) 10 ''A'' [(''T1'', 5)] [] fresh)"

text \<open>A wallet whose local index holds \<open>T2\<close> for \<open>A\<close>, pending at height 100.\<close>

definition indexed_state :: state where
  "indexed_state =
     fresh\<lparr>history_local := [(''A'', [''T2''])], unverified_tx := [(''T2'', 100)],
           history := [(''A'', [])]\<rparr>"

text \<open>The wallet receives \<open>P\<close>, which pays 1000 to \<open>A\<close>; \<open>F\<close> spends that output
  and pays 800 to a foreign address and 100 back to \<open>A\<close>.\<close>

definition funding_tx :: transaction where
  "funding_tx =
     \<lparr>inputs = [\<lparr>in_type = ''p2pkh'', prevout_hash = ''X'', prevout_n = 0, in_address = None\<rparr>],
      outputs = [\<lparr>out_type = TYPE_ADDRESS, out_address = ''A'', out_value = 1000\<rparr>],
      raw = ''funding'', is_complete = True, cached_fee = None, tx_txid = ''P''\<rparr>"

definition spending_tx :: transaction where
  "spending_tx =
     \<lparr>inputs = [\<lparr>in_type = ''p2pkh'', prevout_hash = ''P'', prevout_n = 0, in_address = None\<rparr>],
      outputs = [\<lparr>out_type = TYPE_ADDRESS, out_address = ''Z'', out_value = 800\<rparr>,
                 \<lparr>out_type = TYPE_ADDRESS, out_address = ''A'', out_value = 100\<rparr>],
      raw = ''spending'', is_complete = True, cached_fee = None, tx_txid = ''F''\<rparr>"

definition funded_state :: state where
  "funded_state = snd (add_transaction (\<lambda>x. x) 10 ''P'' funding_tx False fresh)"

text \<open>A transaction that neither spends from the wallet nor pays it.\<close>

definition unrelated_tx :: transaction where
  "unrelated_tx =
     \<lparr>inputs = [\<lparr>in_type = ''p2pkh'', prevout_hash = ''X'', prevout_n = 0, in_address = None\<rparr>],
      outputs = [\<lparr>out_type = TYPE_ADDRESS, out_address = ''Z'', out_value = 5\<rparr>],
      raw = ''unrelated'', is_complete = True, cached_fee = None, tx_txid = ''T1''\<rparr>"

text \<open>\<open>P\<close> is verified at height 50. Then \<open>F\<close> is received and \<open>P\<close> is removed
  again: the wallet knows a spend of an output whose transaction it no longer has.\<close>

definition confirmed_state :: state where
  "confirmed_state =
     add_verified_tx ''P'' \<lparr>height = 50, conf = None, timestamp = Some 1, txpos = Some 1,
        header_hash = Some ''H''\<rparr> funded_state"

definition orphaned_state :: state where
  "orphaned_state =
     snd (remove_transaction ''P''
       (snd (add_transaction (\<lambda>x. x) 10 ''F'' spending_tx False confirmed_state)))"







text \<open>A transaction that pays the wallet from an outpoint \<open>(Z, 0)\<close> that the wallet has
  never seen.\<close>

definition isolated_tx :: transaction where
  "isolated_tx =
     \<lparr>inputs = [\<lparr>in_type = ''p2pkh'', prevout_hash = ''Z'', prevout_n = 0, in_address = None\<rparr>],
      outputs = [\<lparr>out_type = TYPE_ADDRESS, out_address = ''A'', out_value = 300\<rparr>],
      raw = ''isolated'', is_complete = True, cached_fee = None, tx_txid = ''G''\<rparr>"

text \<open>Two transactions that spend from the wallet and pay a foreign address: \<open>S1\<close>
  spends the output \<open>(P, 0)\<close> and carries no address, \<open>S2\<close> spends an outpoint the wallet
  has not seen and carries the address \<open>A\<close>.\<close>

definition sweep_tx :: transaction where
  "sweep_tx =
     \<lparr>inputs = [\<lparr>in_type = ''p2pkh'', prevout_hash = ''P'', prevout_n = 0, in_address = None\<rparr>],
      outputs = [\<lparr>out_type = TYPE_ADDRESS, out_address = ''Z'', out_value = 900\<rparr>],
      raw = ''sweep'', is_complete = True, cached_fee = None, tx_txid = ''S1''\<rparr>"

definition signed_tx :: transaction where
  "signed_tx =
     \<lparr>inputs = [\<lparr>in_type = ''p2pkh'', prevout_hash = ''Q'', prevout_n = 3,
                 in_address = Some ''A''\<rparr>],
      outputs = [\<lparr>out_type = TYPE_ADDRESS, out_address = ''Z'', out_value = 40\<rparr>],
      raw = ''signed'', is_complete = True, cached_fee = None, tx_txid = ''S2''\<rparr>"

text \<open>A decimal arithmetic over the integers in which no operation fails, and an overlay
  without token data. \<open>history_state\<close> is the wallet that has received \<open>Tb\<close> (+20, in the
  mempool), then \<open>Tc\<close> (+100, verified at height 500), then the local \<open>Ta\<close>, which spends
  the output of \<open>Tc\<close> and pays 70 back (-30). In \<open>unpositioned_state\<close> both \<open>Tb\<close> and
  \<open>Tc\<close> are verified at height 500 and \<open>Tb\<close> has no position.\<close>

definition int_decimal :: "(int, int) decimal_ops" where
  "int_decimal =
     \<lparr>Decimal = Inr, dec_zero = 0, dec_neg = (\<lambda>v. Inr (- v)),
      dec_add = (\<lambda>a b. Inr (a + b)), dec_sub = (\<lambda>a b. Inr (a - b)),
      dec_ne_zero = (\<lambda>v. Inr (v \<noteq> 0))\<rparr>"

definition no_tokens :: "int overlay" where
  "no_tokens = \<lparr>omni = True, omni_tx = Some [], getBalance = (\<lambda>a. None)\<rparr>"

definition tx_c :: transaction where
  "tx_c =
     \<lparr>inputs = [\<lparr>in_type = ''p2pkh'', prevout_hash = ''X'', prevout_n = 0, in_address = None\<rparr>],
      outputs = [\<lparr>out_type = TYPE_ADDRESS, out_address = ''A'', out_value = 100\<rparr>],
      raw = ''c'', is_complete = True, cached_fee = None, tx_txid = ''Tc''\<rparr>"

definition tx_b :: transaction where
  "tx_b =
     \<lparr>inputs = [\<lparr>in_type = ''p2pkh'', prevout_hash = ''Y'', prevout_n = 0, in_address = None\<rparr>],
      outputs = [\<lparr>out_type = TYPE_ADDRESS, out_address = ''A'', out_value = 20\<rparr>],
      raw = ''b'', is_complete = True, cached_fee = None, tx_txid = ''Tb''\<rparr>"

definition tx_a :: transaction where
  "tx_a =
     \<lparr>inputs = [\<lparr>in_type = ''p2pkh'', prevout_hash = ''Tc'', prevout_n = 0, in_address = None\<rparr>],
      outputs = [\<lparr>out_type = TYPE_ADDRESS, out_address = ''A'', out_value = 70\<rparr>],
      raw = ''a'', is_complete = True, cached_fee = None, tx_txid = ''Ta''\<rparr>"

definition history_state :: state where
  "history_state =
     snd (add_transaction (\<lambda>x. x) 10 ''Ta'' tx_a False
       (add_verified_tx ''Tc'' \<lparr>height = 500, conf = None, timestamp = Some 7, txpos = Some 4,
                                  header_hash = Some ''H5''\<rparr>
         (snd (receive_tx_callback (\<lambda>x. x) 10 ''Tc'' tx_c 500
           (snd (receive_tx_callback (\<lambda>x. x) 10 ''Tb'' tx_b 0
             (fresh\<lparr>local_height := 600\<rparr>)))))))"

definition unpositioned_state :: state where
  "unpositioned_state =
     add_verified_tx ''Tb'' \<lparr>height = 500, conf = None, timestamp = Some 7, txpos = None,
                                header_hash = Some ''H5''\<rparr>
       (add_verified_tx ''Tc'' \<lparr>height = 500, conf = None, timestamp = Some 7, txpos = Some 4,
                                  header_hash = Some ''H5''\<rparr>
         (snd (receive_tx_callback (\<lambda>x. x) 10 ''Tc'' tx_c 500
           (snd (receive_tx_callback (\<lambda>x. x) 10 ''Tb'' tx_b 500
             (fresh\<lparr>local_height := 600\<rparr>))))))"

section \<open>Properties\<close>

subsection \<open>Effect of a transaction on an address\<close>

lemma fold_minus_sum:
  "fold (\<lambda>(n, v) delta. delta - v) d a = (a::int) - (\<Sum>(n, v) \<leftarrow> d. v)"
  by (induction d arbitrary: a) auto

lemma fold_plus_sum:
  "fold (\<lambda>(n, v, cb) delta. delta + v) d a = (a::int) + (\<Sum>(n, v, cb) \<leftarrow> d. v)"
  by (induction d arbitrary: a) auto

text \<open>
  Claim C10. For every transaction hash and address \<^verbatim>\<open>get_tx_delta\<close> returns an integer:
  the sum of the address's output values in \<^verbatim>\<open>txo[tx_hash]\<close> minus the sum of its input
  values in \<^verbatim>\<open>txi[tx_hash]\<close>, where a missing entry counts as the empty collection. A
  transaction missing from both contributes 0. (The result type is \<open>int\<close>: there is no
  \<^verbatim>\<open>None\<close> result.)
\<close>

theorem get_tx_delta_total:
  "get_tx_delta s tx_hash addr =
     (\<Sum>(n, v, cb) \<leftarrow> dict_get (dict_get (txo s) tx_hash []) addr []. v)
     - (\<Sum>(ser, v) \<leftarrow> dict_get (dict_get (txi s) tx_hash []) addr []. v)
   \<and> (map_of (txi s) tx_hash = None \<longrightarrow>
        get_tx_delta s tx_hash addr =
          (\<Sum>(n, v, cb) \<leftarrow> dict_get (dict_get (txo s) tx_hash []) addr []. v))
   \<and> (map_of (txo s) tx_hash = None \<longrightarrow>
        get_tx_delta s tx_hash addr =
          - (\<Sum>(ser, v) \<leftarrow> dict_get (dict_get (txi s) tx_hash []) addr []. v))
   \<and> (map_of (txi s) tx_hash = None \<and> map_of (txo s) tx_hash = None \<longrightarrow>
        get_tx_delta s tx_hash addr = 0)"
proof -
  have eq: "get_tx_delta s tx_hash addr =
     (\<Sum>(n, v, cb) \<leftarrow> dict_get (dict_get (txo s) tx_hash []) addr []. v)
     - (\<Sum>(ser, v) \<leftarrow> dict_get (dict_get (txi s) tx_hash []) addr []. v)"
    unfolding get_tx_delta_def Let_def fold_minus_sum fold_plus_sum by simp
  show ?thesis
    using eq by (simp add: dict_get_def)
qed

theorem get_tx_delta_total_witness:
  "map_of (txi fresh) ''T1'' = None \<and> map_of (txo fresh) ''T1'' = None \<and>
   get_tx_delta fresh ''T1'' ''A'' = 0"
  using get_tx_delta_total [of fresh "''T1''" "''A''"] by (simp add: fresh_def)

subsection \<open>Reorganisations\<close>

lemma undo_step_other:
  "tx_hash \<noteq> fst item \<Longrightarrow> undo_step rh hh h item (txs, s) = (txs', s') \<Longrightarrow>
   map_of (verified_tx s') tx_hash = map_of (verified_tx s) tx_hash \<and>
   map_of (unverified_tx s') tx_hash = map_of (unverified_tx s) tx_hash"
  by (auto simp: undo_step_def Let_def update_conv' delete_conv' split: prod.splits if_splits)

lemma undo_fold_other:
  "tx_hash \<notin> fst ` set items \<Longrightarrow>
   fold (undo_step rh hh h) items (txs, s) = (txs', s') \<Longrightarrow>
   map_of (verified_tx s') tx_hash = map_of (verified_tx s) tx_hash \<and>
   map_of (unverified_tx s') tx_hash = map_of (unverified_tx s) tx_hash"
proof (induction items arbitrary: txs s)
  case Nil
  then show ?case by simp
next
  case (Cons item items)
  obtain txs1 s1 where st: "undo_step rh hh h item (txs, s) = (txs1, s1)"
    by (cases "undo_step rh hh h item (txs, s)")
  from Cons.prems have ne: "tx_hash \<noteq> fst item" and notin: "tx_hash \<notin> fst ` set items"
    by auto
  from Cons.prems(2) st have "fold (undo_step rh hh h) items (txs1, s1) = (txs', s')"
    by simp
  from Cons.IH [OF notin this] undo_step_other [OF ne st] show ?case by simp
qed

lemma undo_fold_demotes:
  "distinct (map fst items) \<Longrightarrow> (tx_hash, info) \<in> set items \<Longrightarrow> h \<le> height info \<Longrightarrow>
   header_stale hh (rh (height info)) info \<Longrightarrow>
   fold (undo_step rh hh h) items (txs, s) = (txs', s') \<Longrightarrow>
   map_of (verified_tx s') tx_hash = None \<and>
   map_of (unverified_tx s') tx_hash = Some (height info)"
proof (induction items arbitrary: txs s)
  case Nil
  then show ?case by simp
next
  case (Cons item items)
  obtain txs1 s1 where st: "undo_step rh hh h item (txs, s) = (txs1, s1)"
    by (cases "undo_step rh hh h item (txs, s)")
  from Cons.prems(5) st have rest: "fold (undo_step rh hh h) items (txs1, s1) = (txs', s')"
    by simp
  show ?case
  proof (cases "item = (tx_hash, info)")
    case True
    with Cons.prems(1) have notin: "tx_hash \<notin> fst ` set items" by auto
    from True st Cons.prems(3,4)
    have "map_of (verified_tx s1) tx_hash = None \<and>
          map_of (unverified_tx s1) tx_hash = Some (height info)"
      by (auto simp: undo_step_def Let_def update_conv' delete_conv')
    with undo_fold_other [OF notin rest] show ?thesis by simp
  next
    case False
    with Cons.prems(2) have "(tx_hash, info) \<in> set items" by simp
    moreover from Cons.prems(1) have "distinct (map fst items)" by simp
    ultimately show ?thesis
      using Cons.IH Cons.prems(3,4) rest by blast
  qed
qed

text \<open>
  Claim C4. \<^verbatim>\<open>undo_verifications(chain, height)\<close>: a transaction of \<^verbatim>\<open>verified_tx\<close> whose
  recorded height is at least \<open>height\<close>, and for which the chain has no header at that
  height or a header whose hash differs from the stored \<^verbatim>\<open>header_hash\<close>, is removed from
  \<^verbatim>\<open>verified_tx\<close> and put into \<^verbatim>\<open>unverified_tx\<close> at its old height; afterwards
  \<^verbatim>\<open>get_tx_height\<close> returns that height with \<^verbatim>\<open>conf = 0\<close>. (The keys of a dict are
  distinct.)
\<close>

theorem undo_verifications_demotes:
  assumes "distinct (map fst (verified_tx s))"
    and "(tx_hash, info) \<in> set (verified_tx s)"
    and "h \<le> height info"
    and "read_header (height info) = None \<or>
         (\<exists>hdr. read_header (height info) = Some hdr \<and>
                Some (hash_header hdr) \<noteq> header_hash info)"
  shows "\<not> dict_in tx_hash (verified_tx (snd (undo_verifications read_header hash_header h s))) \<and>
         map_of (unverified_tx (snd (undo_verifications read_header hash_header h s))) tx_hash
           = Some (height info) \<and>
         height (get_tx_height (snd (undo_verifications read_header hash_header h s)) tx_hash)
           = height info \<and>
         conf (get_tx_height (snd (undo_verifications read_header hash_header h s)) tx_hash)
           = Some 0"
proof -
  obtain txs s' where res: "undo_verifications read_header hash_header h s = (txs, s')"
    by (cases "undo_verifications read_header hash_header h s")
  from assms(4) have stale: "header_stale hash_header (read_header (height info)) info"
    by (auto simp: header_stale_def)
  from res have "fold (undo_step read_header hash_header h) (verified_tx s) ([], s) = (txs, s')"
    by (simp add: undo_verifications_def)
  from undo_fold_demotes [OF assms(1,2,3) stale this]
  have v: "map_of (verified_tx s') tx_hash = None"
    and u: "map_of (unverified_tx s') tx_hash = Some (height info)" by simp_all
  from v have "\<not> dict_in tx_hash (verified_tx s')" by (simp add: map_of_eq_None_iff)
  moreover from v u have "height (get_tx_height s' tx_hash) = height info"
    and "conf (get_tx_height s' tx_hash) = Some 0"
    by (simp_all add: get_tx_height_def)
  ultimately show ?thesis using u res by simp
qed

theorem undo_verifications_demotes_witness:
  "distinct (map fst (verified_tx reorg_state)) \<and>
   (''T7'', \<lparr>height = 700, conf = None, timestamp = Some 1, txpos = Some 3,
             header_hash = Some ''H''\<rparr>) \<in> set (verified_tx reorg_state) \<and>
   map_of (unverified_tx (snd (undo_verifications (\<lambda>n. Some n) (\<lambda>n. ''H2'') 700 reorg_state)))
      ''T7'' = Some 700 \<and>
   conf (get_tx_height (snd (undo_verifications (\<lambda>n. Some n) (\<lambda>n. ''H2'') 700 reorg_state))
      ''T7'') = Some 0"
  using undo_verifications_demotes [of reorg_state "''T7''"
      "\<lparr>height = 700, conf = None, timestamp = Some 1, txpos = Some 3, header_hash = Some ''H''\<rparr>"
      700 "\<lambda>n. Some n" "\<lambda>n. ''H2''"]
  by (simp add: reorg_state_def fresh_def)

subsection \<open>The verification maps stay disjoint\<close>

lemma same_ledger_refl [simp]: "same_ledger s s"
  by (simp add: same_ledger_def)

lemma same_ledger_trans:
  "same_ledger s s1 \<Longrightarrow> same_ledger s1 s2 \<Longrightarrow> same_ledger s s2"
  by (simp add: same_ledger_def)

lemma fold_same_ledger:
  "(\<And>x s. same_ledger s (f x s)) \<Longrightarrow> same_ledger s (fold f xs s)"
proof (induction xs arbitrary: s)
  case Nil
  then show ?case by simp
next
  case (Cons x xs)
  have "same_ledger s (f x s)" by (rule Cons.prems)
  moreover have "same_ledger (f x s) (fold f xs (f x s))"
    by (rule Cons.IH) (rule Cons.prems)
  ultimately show ?case by (auto intro: same_ledger_trans)
qed

lemma add_tx_to_local_history_sv: "same_ledger s (add_tx_to_local_history t s)"
  unfolding add_tx_to_local_history_def
  by (rule fold_same_ledger) (simp add: same_ledger_def Let_def)

lemma remove_tx_from_local_history_sv: "same_ledger s (remove_tx_from_local_history t s)"
  unfolding remove_tx_from_local_history_def
  by (rule fold_same_ledger) (simp add: same_ledger_def Let_def)

lemma conflicting_loop_sv: "same_ledger s (snd (conflicting_loop ins acc s))"
proof (induction ins acc s rule: conflicting_loop.induct)
  case (1 acc s)
  then show ?case by simp
next
  case (2 txin rest acc s)
  let ?s1 = "s\<lparr>spent_outpoints := dd_touch (prevout_hash txin) (spent_outpoints s)\<rparr>"
  have s1: "same_ledger s ?s1" by (simp add: same_ledger_def)
  show ?case
  proof (cases "in_type txin = ''coinbase''")
    case True
    with 2 show ?thesis by simp
  next
    case False
    show ?thesis
    proof (cases "map_of (dict_get (spent_outpoints ?s1) (prevout_hash txin) []) (prevout_n txin)")
      case None
      with False 2(2) [OF False refl refl None] s1 show ?thesis
        by (auto simp: Let_def intro: same_ledger_trans)
    next
      case (Some sp_tx)
      show ?thesis
      proof (cases "dict_in sp_tx (transactions ?s1)")
        case True
        with False Some 2(3) [OF False refl refl Some] s1 show ?thesis
          by (auto simp: Let_def intro: same_ledger_trans)
      next
        case notin: False
        with False Some s1 show ?thesis by (auto simp: Let_def)
      qed
    qed
  qed
qed

lemma get_conflicting_transactions_sv:
  "same_ledger s (snd (get_conflicting_transactions t tx s))"
  using conflicting_loop_sv [of s "inputs tx" "[]"]
  by (auto simp: get_conflicting_transactions_def split: prod.splits sum.splits)

lemma remove_transaction_sv: "same_ledger s (snd (remove_transaction t s))"
proof -
  have r: "verified_tx (remove_tx_from_local_history t s0) = verified_tx s0"
          "unverified_tx (remove_tx_from_local_history t s0) = unverified_tx s0"
          "history (remove_tx_from_local_history t s0) = history s0" for s0
    using remove_tx_from_local_history_sv [of s0 t] by (simp_all add: same_ledger_def)
  show ?thesis
    unfolding remove_transaction_def Let_def
    by (auto split: prod.splits sum.splits simp: same_ledger_def r)
qed

lemma remove_transactions_sv: "same_ledger s (snd (remove_transactions ts s))"
proof (induction ts arbitrary: s)
  case Nil
  then show ?case by simp
next
  case (Cons t ts)
  show ?case
  proof (cases "remove_transaction t s")
    case (Pair r s1)
    with remove_transaction_sv [of s t] have s1: "same_ledger s s1" by simp
    show ?thesis
    proof (cases r)
      case (Inl e)
      with Pair s1 show ?thesis by simp
    next
      case (Inr u)
      with Pair s1 Cons.IH [of s1] show ?thesis
        by (auto intro: same_ledger_trans)
    qed
  qed
qed

lemma resolve_conflicts_sv:
  "same_ledger s (snd (resolve_conflicts depth h cs s))"
proof -
  have a: "verified_tx s' = verified_tx s \<and> unverified_tx s' = unverified_tx s \<and>
           history s' = history s"
    if "remove_transactions ts (s\<lparr>spent_outpoints := sp\<rparr>) = (r, s')" for ts sp r s'
    using remove_transactions_sv [of "s\<lparr>spent_outpoints := sp\<rparr>" ts] that
    by (simp add: same_ledger_def)
  show ?thesis
    unfolding resolve_conflicts_def Let_def
    by (auto split: prod.splits sum.splits simp: same_ledger_def dest: a)
qed

lemma add_input_sv: "same_ledger s (add_input t txin s)"
  by (simp add: add_input_def Let_def same_ledger_def)

lemma give_value_to_spender_sv: "same_ledger s (give_value_to_spender nt a ser v s)"
proof -
  have r: "same_ledger s0 (add_tx_to_local_history nt s0)" for s0
    by (rule add_tx_to_local_history_sv)
  show ?thesis
    unfolding give_value_to_spender_def Let_def
    using r by (auto split: option.splits simp: same_ledger_def)
qed

lemma add_output_sv: "same_ledger s (add_output p2pkh t cb item s)"
proof -
  have r: "verified_tx (give_value_to_spender nt a ser v s0) = verified_tx s0"
          "unverified_tx (give_value_to_spender nt a ser v s0) = unverified_tx s0"
          "history (give_value_to_spender nt a ser v s0) = history s0"
    for nt a ser v s0
    using give_value_to_spender_sv [of s0 nt a ser v] by (simp_all add: same_ledger_def)
  show ?thesis
    unfolding add_output_def Let_def
    by (auto split: prod.splits option.splits simp: same_ledger_def r)
qed

lemma index_transaction_sv: "same_ledger s (index_transaction p2pkh t tx cb s)"
proof -
  have i: "same_ledger s0 (fold (add_input t) xs s0)" for xs s0
    by (rule fold_same_ledger) (rule add_input_sv)
  have out: "same_ledger s0 (fold (add_output p2pkh t cb) ys s0)" for ys s0
    by (rule fold_same_ledger) (rule add_output_sv)
  have l: "same_ledger s0 (add_tx_to_local_history t s0)" for s0
    by (rule add_tx_to_local_history_sv)
  note eqs = i [unfolded same_ledger_def] out [unfolded same_ledger_def]
    l [unfolded same_ledger_def]
  show ?thesis
    unfolding index_transaction_def Let_def
    by (simp add: same_ledger_def eqs)
qed

lemma add_transaction_sv:
  "same_ledger s (snd (add_transaction p2pkh depth t tx allow s))"
proof -
  have c: "same_ledger s (snd (get_conflicting_transactions t tx s))"
    by (rule get_conflicting_transactions_sv)
  have r: "same_ledger s1 (snd (resolve_conflicts depth h cs s1))" for h cs s1
    by (rule resolve_conflicts_sv)
  have i: "same_ledger s2 (index_transaction p2pkh t tx cb s2)" for cb s2
    by (rule index_transaction_sv)
  show ?thesis
  proof (cases "get_conflicting_transactions t tx s")
    case (Pair cr s1)
    with c have s1: "same_ledger s s1" by simp
    show ?thesis
    proof (cases cr)
      case (Inl e)
      with Pair s1 show ?thesis
        by (auto simp: add_transaction_def Let_def split: list.splits)
    next
      case (Inr cs)
      show ?thesis
      proof (cases "resolve_conflicts depth (height (get_tx_height s t)) cs s1")
        case rp: (Pair rr s2)
        with r [of s1 "height (get_tx_height s t)" cs] have "same_ledger s1 s2" by simp
        with s1 have s2: "same_ledger s s2" by (rule same_ledger_trans)
        from i [of s2] s2 have s3: "same_ledger s (index_transaction p2pkh t tx cb s2)" for cb
          by (rule same_ledger_trans [rotated])
        show ?thesis
          using Pair Inr rp s2 s3
          by (auto simp: add_transaction_def Let_def split: list.splits sum.splits bool.splits)
      qed
    qed
  qed
qed

lemma keys_delete: "fst ` set (AList.delete k al) = fst ` set al - {k}"
  by (auto simp: AList.delete_eq)

lemma disjoint_same:
  "same_ledger s s' \<Longrightarrow> verified_unverified_disjoint s \<Longrightarrow>
   verified_unverified_disjoint s'"
  by (simp add: same_ledger_def verified_unverified_disjoint_def)

lemma add_unverified_tx_disjoint:
  "verified_unverified_disjoint s \<Longrightarrow> verified_unverified_disjoint (add_unverified_tx t h s)"
  by (auto simp: verified_unverified_disjoint_def add_unverified_tx_def
      remove_spv_proof_for_tx_def keys_delete dom_update)

lemma remove_unverified_tx_disjoint:
  "verified_unverified_disjoint s \<Longrightarrow> verified_unverified_disjoint (remove_unverified_tx t h s)"
  by (auto simp: verified_unverified_disjoint_def remove_unverified_tx_def Let_def keys_delete)

lemma add_verified_tx_disjoint:
  "verified_unverified_disjoint s \<Longrightarrow> verified_unverified_disjoint (add_verified_tx t info s)"
  by (auto simp: verified_unverified_disjoint_def add_verified_tx_def keys_delete dom_update)

lemma undo_step_disjoint:
  "verified_unverified_disjoint (snd acc) \<Longrightarrow>
   verified_unverified_disjoint (snd (undo_step rh hh h item acc))"
  by (cases acc; cases item)
     (auto simp: verified_unverified_disjoint_def undo_step_def Let_def keys_delete dom_update)

lemma undo_fold_disjoint:
  "verified_unverified_disjoint (snd acc) \<Longrightarrow>
   verified_unverified_disjoint (snd (fold (undo_step rh hh h) items acc))"
  by (induction items arbitrary: acc) (simp_all add: undo_step_disjoint)

lemma undo_verifications_disjoint:
  "verified_unverified_disjoint s \<Longrightarrow>
   verified_unverified_disjoint (snd (undo_verifications rh hh h s))"
  unfolding undo_verifications_def by (rule undo_fold_disjoint) simp

lemma forget_retracted_disjoint:
  "verified_unverified_disjoint s \<Longrightarrow> verified_unverified_disjoint (forget_retracted hist item s)"
  by (cases item)
     (auto simp: verified_unverified_disjoint_def forget_retracted_def
        remove_spv_proof_for_tx_def keys_delete)

lemma receive_history_locked_disjoint:
  "verified_unverified_disjoint s \<Longrightarrow>
   verified_unverified_disjoint (receive_history_locked addr hist s)"
proof -
  have f: "verified_unverified_disjoint s0 \<Longrightarrow>
           verified_unverified_disjoint (fold (forget_retracted hist) xs s0)" for xs s0
    by (induction xs arbitrary: s0) (simp_all add: forget_retracted_disjoint)
  assume "verified_unverified_disjoint s"
  from f [OF this] show ?thesis
    by (simp add: receive_history_locked_def Let_def verified_unverified_disjoint_def)
qed

lemma add_transaction_disjoint:
  "verified_unverified_disjoint s \<Longrightarrow>
   verified_unverified_disjoint (snd (add_transaction p2pkh depth t tx allow s))"
  by (rule disjoint_same [OF add_transaction_sv])

lemma receive_history_loop_disjoint:
  "verified_unverified_disjoint s \<Longrightarrow>
   verified_unverified_disjoint (snd (receive_history_loop p2pkh depth hist s))"
proof (induction hist arbitrary: s)
  case Nil
  then show ?case by simp
next
  case (Cons item hist)
  obtain t h where item: "item = (t, h)" by (cases item)
  let ?s1 = "add_unverified_tx t h s"
  from Cons.prems have d1: "verified_unverified_disjoint ?s1"
    by (rule add_unverified_tx_disjoint)
  show ?case
  proof (cases "map_of (transactions ?s1) t")
    case None
    with item Cons.IH [OF d1] show ?thesis by (simp add: Let_def)
  next
    case (Some tx)
    obtain r s2 where a: "add_transaction p2pkh depth t tx True ?s1 = (r, s2)"
      by (cases "add_transaction p2pkh depth t tx True ?s1")
    with add_transaction_disjoint [OF d1, of p2pkh depth t tx True]
    have d2: "verified_unverified_disjoint s2" by simp
    show ?thesis
      using item Some a d2 Cons.IH [OF d2]
      by (cases r) (simp_all add: Let_def)
  qed
qed

lemma receive_history_callback_disjoint:
  "verified_unverified_disjoint s \<Longrightarrow>
   verified_unverified_disjoint (snd (receive_history_callback p2pkh depth addr hist fees s))"
proof -
  assume "verified_unverified_disjoint s"
  then have "verified_unverified_disjoint (receive_history_locked addr hist s)"
    by (rule receive_history_locked_disjoint)
  from receive_history_loop_disjoint [OF this, of p2pkh depth hist]
  have d: "verified_unverified_disjoint
             (snd (receive_history_loop p2pkh depth hist (receive_history_locked addr hist s)))" .
  obtain r s1 where
    l: "receive_history_loop p2pkh depth hist (receive_history_locked addr hist s) = (r, s1)"
    by (cases "receive_history_loop p2pkh depth hist (receive_history_locked addr hist s)")
  with d have "verified_unverified_disjoint s1" by simp
  then show ?thesis
    using l by (cases r) (simp_all add: receive_history_callback_def verified_unverified_disjoint_def)
qed

lemma run_operation_disjoint:
  "verified_unverified_disjoint s \<Longrightarrow> verified_unverified_disjoint (run_operation op s)"
proof (cases op)
  case (Add_address a)
  then show "verified_unverified_disjoint s \<Longrightarrow> ?thesis"
    by (simp add: add_address_def verified_unverified_disjoint_def)
next
  case (Add_transaction p2pkh depth t tx allow)
  then show "verified_unverified_disjoint s \<Longrightarrow> ?thesis"
    by (simp add: add_transaction_disjoint)
next
  case (Remove_transaction t)
  then show "verified_unverified_disjoint s \<Longrightarrow> ?thesis"
    using disjoint_same [OF remove_transaction_sv] by simp
next
  case (Receive_tx_callback p2pkh depth t tx h)
  then show "verified_unverified_disjoint s \<Longrightarrow> ?thesis"
    by (simp add: receive_tx_callback_def add_transaction_disjoint add_unverified_tx_disjoint)
next
  case (Receive_history_callback p2pkh depth a hist fees)
  then show "verified_unverified_disjoint s \<Longrightarrow> ?thesis"
    by (simp add: receive_history_callback_disjoint)
next
  case (Add_unverified_tx t h)
  then show "verified_unverified_disjoint s \<Longrightarrow> ?thesis"
    by (simp add: add_unverified_tx_disjoint)
next
  case (Remove_unverified_tx t h)
  then show "verified_unverified_disjoint s \<Longrightarrow> ?thesis"
    by (simp add: remove_unverified_tx_disjoint)
next
  case (Add_verified_tx t info)
  then show "verified_unverified_disjoint s \<Longrightarrow> ?thesis"
    by (simp add: add_verified_tx_disjoint)
next
  case (Undo_verifications rh hh h)
  then show "verified_unverified_disjoint s \<Longrightarrow> ?thesis"
    by (simp add: undo_verifications_disjoint)
next
  case (Get_conflicting_transactions t tx)
  then show "verified_unverified_disjoint s \<Longrightarrow> ?thesis"
    using disjoint_same [OF get_conflicting_transactions_sv] by simp
next
  case Save_transactions
  then show "verified_unverified_disjoint s \<Longrightarrow> ?thesis"
    by (simp add: save_transactions_def verified_unverified_disjoint_def)
next
  case Clear_history
  then show "verified_unverified_disjoint s \<Longrightarrow> ?thesis"
    by (simp add: clear_history_def save_transactions_def verified_unverified_disjoint_def)
qed

lemma run_operations_disjoint:
  "verified_unverified_disjoint s \<Longrightarrow> verified_unverified_disjoint (run_operations ops s)"
  unfolding run_operations_def
  by (induction ops arbitrary: s) (simp_all add: run_operation_disjoint)

text \<open>
  Claim C7. After any sequence of public operations, started from the state the
  constructor sets up (\<^verbatim>\<open>unverified_tx\<close> empty), no txid is a key of both \<^verbatim>\<open>verified_tx\<close>
  and \<^verbatim>\<open>unverified_tx\<close>; and each of \<^verbatim>\<open>add_unverified_tx\<close>, \<^verbatim>\<open>add_verified_tx\<close>,
  \<^verbatim>\<open>undo_verifications\<close> and \<^verbatim>\<open>receive_history_callback\<close> (whether it returns or raises)
  keeps the two key sets disjoint.
\<close>

theorem verified_unverified_stay_disjoint:
  "(unverified_tx s0 = [] \<longrightarrow> verified_unverified_disjoint (run_operations ops s0)) \<and>
   (verified_unverified_disjoint s \<longrightarrow>
      verified_unverified_disjoint (run_operations ops s) \<and>
      verified_unverified_disjoint (add_unverified_tx t h s) \<and>
      verified_unverified_disjoint (add_verified_tx t info s) \<and>
      verified_unverified_disjoint (snd (undo_verifications read_header hash_header h s)) \<and>
      verified_unverified_disjoint
        (snd (receive_history_callback p2pkh depth addr hist fees s)))"
proof -
  have "verified_unverified_disjoint s0" if "unverified_tx s0 = []"
    using that by (simp add: verified_unverified_disjoint_def)
  then show ?thesis
    by (simp add: run_operations_disjoint add_unverified_tx_disjoint add_verified_tx_disjoint
        undo_verifications_disjoint receive_history_callback_disjoint)
qed


theorem verified_unverified_stay_disjoint_witness:
  "unverified_tx fresh = [] \<and>
   verified_unverified_disjoint
     (run_operations
        [Add_unverified_tx ''T7'' 700,
         Add_verified_tx ''T7'' \<lparr>height = 700, conf = None, timestamp = Some 1,
           txpos = Some 3, header_hash = Some ''H''\<rparr>,
         Undo_verifications (\<lambda>n. Some n) (\<lambda>n::int. ''H2'') 700] fresh) \<and>
   verified_unverified_disjoint reorg_state \<and>
   verified_unverified_disjoint (add_unverified_tx ''T7'' 0 reorg_state) \<and>
   verified_unverified_disjoint
     (snd (receive_history_callback (\<lambda>x. x) 10 ''A'' [(''T7'', 0)] [] reorg_state))"
proof -
  have h1: "unverified_tx fresh = []"
    by (simp add: fresh_def)
  have h2: "verified_unverified_disjoint reorg_state"
    by (simp add: fresh_def reorg_state_def verified_unverified_disjoint_def)
  show ?thesis
    using h1 h2 verified_unverified_stay_disjoint [of fresh
      "[Add_unverified_tx ''T7'' 700,
        Add_verified_tx ''T7'' \<lparr>height = 700, conf = None, timestamp = Some 1,
           txpos = Some 3, header_hash = Some ''H''\<rparr>,
        Undo_verifications (\<lambda>n. Some n) (\<lambda>n::int. ''H2'') 700]"
      reorg_state "''T7''" 0 info read_header hash_header "\<lambda>x. x" 10 "''A''"
      "[(''T7'', 0)]" "[]"]
    by blast
qed

subsection \<open>A new server history for an address\<close>

lemma retract_state_eq:
  "retract_state = fresh\<lparr>history := [(''A'', [(''T1'', 5)])], unverified_tx := [(''T1'', 5)]\<rparr>"
  by (simp add: retract_state_def fresh_def receive_history_callback_def
      receive_history_locked_def get_address_history_def dict_get_def Let_def
      add_unverified_tx_def)

text \<open>
  Claim C3, as stated, takes the old history to be the stored server history
  \<^verbatim>\<open>history[addr]\<close>. It fails: \<open>T1\<close> at height 5 is in \<^verbatim>\<open>history['A']\<close> and not in the
  new (empty) history, and it is still in \<^verbatim>\<open>unverified_tx\<close> after the callback.
\<close>

theorem receive_history_callback_counterexample:
  "(''T1'', 5) \<in> set (dict_get (history retract_state) ''A'' []) \<and>
   (''T1'', 5) \<notin> set ([] :: (txid \<times> int) list) \<and>
   map_of (unverified_tx (snd (receive_history_callback (\<lambda>x. x) 10 ''A'' [] [] retract_state)))
     ''T1'' = Some 5"
  by (simp add: retract_state_eq fresh_def receive_history_callback_def
      receive_history_locked_def get_address_history_def dict_get_def Let_def)

lemma forget_retracted_keys:
  "(t \<notin> fst ` set (verified_tx s) \<longrightarrow> t \<notin> fst ` set (verified_tx (forget_retracted hist item s))) \<and>
   (t \<notin> fst ` set (unverified_tx s) \<longrightarrow>
      t \<notin> fst ` set (unverified_tx (forget_retracted hist item s))) \<and>
   (t \<in> set (spv_removed s) \<longrightarrow> t \<in> set (spv_removed (forget_retracted hist item s))) \<and>
   verifier (forget_retracted hist item s) = verifier s \<and>
   history (forget_retracted hist item s) = history s"
  by (cases item)
     (auto simp: forget_retracted_def remove_spv_proof_for_tx_def keys_delete)

lemma forget_fold_keys:
  "(t \<notin> fst ` set (verified_tx s) \<longrightarrow>
      t \<notin> fst ` set (verified_tx (fold (forget_retracted hist) xs s))) \<and>
   (t \<notin> fst ` set (unverified_tx s) \<longrightarrow>
      t \<notin> fst ` set (unverified_tx (fold (forget_retracted hist) xs s))) \<and>
   (t \<in> set (spv_removed s) \<longrightarrow> t \<in> set (spv_removed (fold (forget_retracted hist) xs s))) \<and>
   verifier (fold (forget_retracted hist) xs s) = verifier s \<and>
   history (fold (forget_retracted hist) xs s) = history s"
proof (induction xs arbitrary: s)
  case Nil
  then show ?case by simp
next
  case (Cons x xs)
  let ?s1 = "forget_retracted hist x s"
  have f: "fold (forget_retracted hist) (x # xs) s = fold (forget_retracted hist) xs ?s1"
    by simp
  show ?case
    unfolding f using Cons.IH [of ?s1] forget_retracted_keys [of t s hist x] by metis
qed

lemma forget_fold_removes:
  "(t, h) \<in> set xs \<Longrightarrow> (t, h) \<notin> set hist \<Longrightarrow>
   t \<notin> fst ` set (verified_tx (fold (forget_retracted hist) xs s)) \<and>
   t \<notin> fst ` set (unverified_tx (fold (forget_retracted hist) xs s)) \<and>
   (verifier s \<longrightarrow> t \<in> set (spv_removed (fold (forget_retracted hist) xs s)))"
proof (induction xs arbitrary: s)
  case Nil
  then show ?case by simp
next
  case (Cons x xs)
  let ?s1 = "forget_retracted hist x s"
  have f: "fold (forget_retracted hist) (x # xs) s = fold (forget_retracted hist) xs ?s1"
    by simp
  have v: "verifier ?s1 = verifier s"
    using forget_retracted_keys [of t s hist x] by simp
  show ?case
  proof (cases "x = (t, h)")
    case True
    from Cons.prems(2) True
    have "t \<notin> fst ` set (verified_tx ?s1)" "t \<notin> fst ` set (unverified_tx ?s1)"
      "verifier s \<longrightarrow> t \<in> set (spv_removed ?s1)"
      by (auto simp: forget_retracted_def remove_spv_proof_for_tx_def keys_delete)
    with forget_fold_keys [of t ?s1 hist xs] show ?thesis
      unfolding f by metis
  next
    case False
    with Cons.prems have "(t, h) \<in> set xs" by simp
    from Cons.IH [OF this Cons.prems(2), of ?s1] v
    show ?thesis unfolding f by simp
  qed
qed

lemma forget_fold_untouched:
  "t \<notin> fst ` set xs \<Longrightarrow>
   map_of (verified_tx (fold (forget_retracted hist) xs s)) t = map_of (verified_tx s) t \<and>
   map_of (unverified_tx (fold (forget_retracted hist) xs s)) t = map_of (unverified_tx s) t"
proof (induction xs arbitrary: s)
  case Nil
  then show ?case by simp
next
  case (Cons x xs)
  obtain t' h' where x: "x = (t', h')" by (cases x)
  with Cons.prems have ne: "t' \<noteq> t" and rest: "t \<notin> fst ` set xs" by auto
  from ne x
  have "map_of (verified_tx (forget_retracted hist x s)) t = map_of (verified_tx s) t"
       "map_of (unverified_tx (forget_retracted hist x s)) t = map_of (unverified_tx s) t"
    by (auto simp: forget_retracted_def remove_spv_proof_for_tx_def delete_conv')
  with Cons.IH [OF rest, of "forget_retracted hist x s"] show ?case by simp
qed

lemma receive_history_loop_ledger:
  "history (snd (receive_history_loop p2pkh depth hist s)) = history s"
proof (induction hist arbitrary: s)
  case Nil
  then show ?case by simp
next
  case (Cons item hist)
  obtain t h where item: "item = (t, h)" by (cases item)
  let ?s1 = "add_unverified_tx t h s"
  have h1: "history ?s1 = history s"
    by (simp add: add_unverified_tx_def remove_spv_proof_for_tx_def)
  show ?case
  proof (cases "map_of (transactions ?s1) t")
    case None
    with item Cons.IH [of ?s1] h1 show ?thesis by (simp add: Let_def)
  next
    case (Some tx)
    obtain r s2 where a: "add_transaction p2pkh depth t tx True ?s1 = (r, s2)"
      by (cases "add_transaction p2pkh depth t tx True ?s1")
    with add_transaction_sv [of ?s1 p2pkh depth t tx True]
    have h2: "history s2 = history s" using h1 by (simp add: same_ledger_def)
    show ?thesis
      using item Some a h2 Cons.IH [of s2]
      by (cases r) (simp_all add: Let_def)
  qed
qed

text \<open>
  Claim C3, amended. \<^verbatim>\<open>receive_history_callback(addr, new_hist, tx_fees)\<close> takes the old
  history from \<^verbatim>\<open>get_address_history(addr)\<close>: the txids of the local index
  \<^verbatim>\<open>_history_local[addr]\<close>, each with its current \<^verbatim>\<open>get_tx_height\<close> height. For each
  such pair that is not in \<open>new_hist\<close> the block under the lock removes the txid from
  \<^verbatim>\<open>verified_tx\<close> and from \<^verbatim>\<open>unverified_tx\<close> and, when a verifier is attached, tells it
  to release the proof; a txid outside the local index of the address keeps its entries.
  The block then sets \<^verbatim>\<open>history[addr]\<close> to \<open>new_hist\<close>, which is still its value when the
  callback ends.
\<close>

theorem receive_history_callback_retracts:
  "(tx_hash \<in> set (dict_get (history_local s) addr []) \<and>
    (tx_hash, height (get_tx_height s tx_hash)) \<notin> set hist \<longrightarrow>
      \<not> dict_in tx_hash (verified_tx (receive_history_locked addr hist s)) \<and>
      \<not> dict_in tx_hash (unverified_tx (receive_history_locked addr hist s)) \<and>
      (verifier s \<longrightarrow> tx_hash \<in> set (spv_removed (receive_history_locked addr hist s)))) \<and>
   (tx_hash \<notin> set (dict_get (history_local s) addr []) \<longrightarrow>
      map_of (verified_tx (receive_history_locked addr hist s)) tx_hash
        = map_of (verified_tx s) tx_hash \<and>
      map_of (unverified_tx (receive_history_locked addr hist s)) tx_hash
        = map_of (unverified_tx s) tx_hash) \<and>
   map_of (history (receive_history_locked addr hist s)) addr = Some hist \<and>
   map_of (history (snd (receive_history_callback p2pkh depth addr hist fees s))) addr
     = Some hist"
proof -
  let ?old = "get_address_history s addr"
  let ?s1 = "fold (forget_retracted hist) ?old s"
  have locked: "receive_history_locked addr hist s
                  = ?s1\<lparr>history := AList.update addr hist (history ?s1)\<rparr>"
    by (simp add: receive_history_locked_def Let_def)
  have a: "\<not> dict_in tx_hash (verified_tx (receive_history_locked addr hist s)) \<and>
      \<not> dict_in tx_hash (unverified_tx (receive_history_locked addr hist s)) \<and>
      (verifier s \<longrightarrow> tx_hash \<in> set (spv_removed (receive_history_locked addr hist s)))"
    if "tx_hash \<in> set (dict_get (history_local s) addr [])"
      and "(tx_hash, height (get_tx_height s tx_hash)) \<notin> set hist"
  proof -
    from that(1) have "(tx_hash, height (get_tx_height s tx_hash)) \<in> set ?old"
      by (auto simp: get_address_history_def Let_def)
    from forget_fold_removes [OF this that(2), of s] show ?thesis
      by (simp add: locked)
  qed
  have b: "map_of (verified_tx (receive_history_locked addr hist s)) tx_hash
        = map_of (verified_tx s) tx_hash \<and>
      map_of (unverified_tx (receive_history_locked addr hist s)) tx_hash
        = map_of (unverified_tx s) tx_hash"
    if "tx_hash \<notin> set (dict_get (history_local s) addr [])"
  proof -
    from that have "tx_hash \<notin> fst ` set ?old"
      by (auto simp: get_address_history_def Let_def)
    from forget_fold_untouched [OF this, of hist s] show ?thesis
      by (simp add: locked)
  qed
  have c: "map_of (history (receive_history_locked addr hist s)) addr = Some hist"
    by (simp add: locked update_conv')
  have d: "map_of (history (snd (receive_history_callback p2pkh depth addr hist fees s))) addr
     = Some hist"
  proof -
    obtain r s2 where
      l: "receive_history_loop p2pkh depth hist (receive_history_locked addr hist s) = (r, s2)"
      by (cases "receive_history_loop p2pkh depth hist (receive_history_locked addr hist s)")
    with receive_history_loop_ledger [of p2pkh depth hist "receive_history_locked addr hist s"]
    have "history s2 = history (receive_history_locked addr hist s)" by simp
    with c l show ?thesis
      by (cases r) (simp_all add: receive_history_callback_def)
  qed
  from a b c d show ?thesis by blast
qed

theorem receive_history_callback_retracts_witness:
  "''T2'' \<in> set (dict_get (history_local indexed_state) ''A'' []) \<and>
   (''T2'', height (get_tx_height indexed_state ''T2'')) \<notin> set [(''T2'', 101)] \<and>
   verifier indexed_state \<and>
   \<not> dict_in ''T2'' (unverified_tx (receive_history_locked ''A'' [(''T2'', 101)] indexed_state)) \<and>
   ''T2'' \<in> set (spv_removed (receive_history_locked ''A'' [(''T2'', 101)] indexed_state)) \<and>
   ''T9'' \<notin> set (dict_get (history_local indexed_state) ''A'' []) \<and>
   map_of (unverified_tx (receive_history_locked ''A'' [(''T2'', 101)] indexed_state)) ''T9''
      = map_of (unverified_tx indexed_state) ''T9''"
proof -
  have h1: "''T2'' \<in> set (dict_get (history_local indexed_state) ''A'' [])"
    by (simp add: indexed_state_def fresh_def dict_get_def)
  have h2: "(''T2'', height (get_tx_height indexed_state ''T2'')) \<notin> set [(''T2'', 101)]"
    by (simp add: indexed_state_def fresh_def get_tx_height_def)
  have h3: "verifier indexed_state"
    by (simp add: indexed_state_def fresh_def)
  have h4: "''T9'' \<notin> set (dict_get (history_local indexed_state) ''A'' [])"
    by (simp add: indexed_state_def fresh_def dict_get_def)
  show ?thesis
    using h1 h2 h3 h4
      receive_history_callback_retracts [of "''T2''" indexed_state "''A''" "[(''T2'', 101)]"
        "\<lambda>x. x" 10 "[]"]
      receive_history_callback_retracts [of "''T9''" indexed_state "''A''" "[(''T2'', 101)]"
        "\<lambda>x. x" 10 "[]"]
    by blast
qed

subsection \<open>Effect of a transaction on the wallet, and its fee\<close>

lemma funded_state_eq:
  "funded_state =
     fresh\<lparr>transactions := [(''P'', funding_tx)],
           txi := [(''P'', [])],
           txo := [(''P'', [(''A'', [(0, 1000, False)])])],
           spent_outpoints := [(''X'', [(0, ''P'')]), (''P'', [])],
           history_local := [(''A'', [''P''])]\<rparr>"
  by (simp add: funded_state_def fresh_def funding_tx_def add_transaction_def
      get_tx_height_def has_mine_input_def has_mine_output_def is_mine_def
      get_txin_address_def get_txout_address_def dict_get_def Let_def
      get_conflicting_transactions_def dd_touch_def resolve_conflicts_def
      index_transaction_def add_input_def sp_set_def add_value_from_prev_output_def
      add_output_def add_tx_to_local_history_def tx_addresses_def TX_HEIGHT_LOCAL_def)






subsection \<open>Unrelated transactions\<close>

lemma conflicting_loop_not_unrelated:
  "fst (conflicting_loop ins acc s) \<noteq> Inl UnrelatedTransactionException"
  by (induction ins acc s rule: conflicting_loop.induct)
     (auto simp: Let_def split: option.splits)

lemma get_conflicting_transactions_not_unrelated:
  "fst (get_conflicting_transactions t tx s) \<noteq> Inl UnrelatedTransactionException"
  using conflicting_loop_not_unrelated [of "inputs tx" "[]" s]
  by (auto simp: get_conflicting_transactions_def split: prod.splits sum.splits)

lemma get_depending_transactions_not_unrelated:
  "fst (get_depending_transactions depth t sp) \<noteq> Inl UnrelatedTransactionException"
proof (induction depth arbitrary: t sp)
  case 0
  then show ?case by simp
next
  case (Suc depth)
  have step: "fst (fold (\<lambda>other_hash (r, sp2).
              case r of
                Inl e \<Rightarrow> (Inl e, sp2)
              | Inr children \<Rightarrow>
                  (case get_depending_transactions depth other_hash sp2 of
                     (Inl e, sp3) \<Rightarrow> (Inl e, sp3)
                   | (Inr sub, sp3) \<Rightarrow>
                       (Inr (List.union (List.insert other_hash children) sub), sp3)))
           xs acc) \<noteq> Inl UnrelatedTransactionException"
    if "fst acc \<noteq> Inl UnrelatedTransactionException" for xs acc
    using that
  proof (induction xs arbitrary: acc)
    case Nil
    then show ?case by simp
  next
    case (Cons x xs)
    obtain r sp2 where acc: "acc = (r, sp2)" by (cases acc)
    show ?case
    proof (cases r)
      case (Inl e)
      with acc Cons.prems show ?thesis
        by (simp add: Cons.IH)
    next
      case (Inr children)
      obtain r3 sp3 where g: "get_depending_transactions depth x sp2 = (r3, sp3)"
        by (cases "get_depending_transactions depth x sp2")
      with Suc.IH [of x sp2] have "r3 \<noteq> Inl UnrelatedTransactionException" by simp
      with acc Inr g show ?thesis
        by (cases r3) (simp_all add: Cons.IH)
    qed
  qed
  show ?case
    by (simp add: Let_def step)
qed

lemma collect_depending_not_unrelated:
  "fst (collect_depending depth cs acc sp) \<noteq> Inl UnrelatedTransactionException"
proof (induction cs arbitrary: acc sp)
  case Nil
  then show ?case by simp
next
  case (Cons c cs)
  obtain r sp1 where g: "get_depending_transactions depth c sp = (r, sp1)"
    by (cases "get_depending_transactions depth c sp")
  with get_depending_transactions_not_unrelated [of depth c sp]
  have "r \<noteq> Inl UnrelatedTransactionException" by simp
  with g show ?case
    by (cases r) (simp_all add: Cons.IH)
qed

lemma scan_spent_outpoints_not_unrelated:
  "fst (scan_spent_outpoints items t sp) \<noteq> Inl UnrelatedTransactionException"
  by (induction items t sp rule: scan_spent_outpoints.induct)
     (auto split: option.splits)

lemma remove_transaction_not_unrelated:
  "fst (remove_transaction t s) \<noteq> Inl UnrelatedTransactionException"
  using scan_spent_outpoints_not_unrelated [of "spent_outpoints s" t "spent_outpoints s"]
  by (auto simp: remove_transaction_def remove_from_spent_outpoints_def Let_def
      split: prod.splits sum.splits option.splits if_splits)

lemma remove_transactions_not_unrelated:
  "fst (remove_transactions ts s) \<noteq> Inl UnrelatedTransactionException"
proof (induction ts arbitrary: s)
  case Nil
  then show ?case by simp
next
  case (Cons t ts)
  obtain r s1 where g: "remove_transaction t s = (r, s1)"
    by (cases "remove_transaction t s")
  with remove_transaction_not_unrelated [of t s]
  have "r \<noteq> Inl UnrelatedTransactionException" by simp
  with g show ?case
    by (cases r) (simp_all add: Cons.IH)
qed

lemma resolve_conflicts_not_unrelated:
  "fst (resolve_conflicts depth h cs s) \<noteq> Inl UnrelatedTransactionException"
proof -
  have a: "r \<noteq> Inl UnrelatedTransactionException"
    if "collect_depending depth cs cs (spent_outpoints s) = (r, sp)" for r sp
    using collect_depending_not_unrelated [of depth cs cs "spent_outpoints s"] that by simp
  have b: "r \<noteq> Inl UnrelatedTransactionException"
    if "remove_transactions ts s0 = (r, s1)" for ts s0 r s1
    using remove_transactions_not_unrelated [of ts s0] that by simp
  show ?thesis
    unfolding resolve_conflicts_def Let_def
    by (auto split: prod.splits sum.splits dest: a b)
qed

text \<open>The guard of \<^verbatim>\<open>add_transaction\<close>, in the terms of the code.\<close>

lemma add_transaction_unrelated_guard:
  assumes "tx_hash \<noteq> []" and "is_complete tx" and "inputs tx \<noteq> []"
  shows "(fst (add_transaction p2pkh depth tx_hash tx False s) = Inl UnrelatedTransactionException
            \<longleftrightarrow>
          \<not> (\<exists>txin \<in> set (inputs tx). is_mine s (get_txin_address s txin)) \<and>
          \<not> (\<exists>out \<in> set (outputs tx). is_mine s (get_txout_address p2pkh out))) \<and>
         (fst (add_transaction p2pkh depth tx_hash tx False s) = Inl UnrelatedTransactionException
            \<longrightarrow> snd (add_transaction p2pkh depth tx_hash tx False s) = s)"
proof -
  from assms(3) obtain txin0 ins where ins: "inputs tx = txin0 # ins"
    by (cases "inputs tx") auto
  let ?related = "has_mine_input s tx \<or> has_mine_output p2pkh s tx"
  have rel: "?related \<longleftrightarrow>
      (\<exists>txin \<in> set (inputs tx). is_mine s (get_txin_address s txin)) \<or>
      (\<exists>out \<in> set (outputs tx). is_mine s (get_txout_address p2pkh out))"
    by (simp add: has_mine_input_def has_mine_output_def list_ex_iff)
  show ?thesis
  proof (cases ?related)
    case False
    with assms ins have "add_transaction p2pkh depth tx_hash tx False s
                           = (Inl UnrelatedTransactionException, s)"
      by (simp add: add_transaction_def Let_def)
    with False rel show ?thesis by simp
  next
    case True
    obtain cr s1 where c: "get_conflicting_transactions tx_hash tx s = (cr, s1)"
      by (cases "get_conflicting_transactions tx_hash tx s")
    with get_conflicting_transactions_not_unrelated [of tx_hash tx s]
    have cr: "cr \<noteq> Inl UnrelatedTransactionException" by simp
    have "fst (add_transaction p2pkh depth tx_hash tx False s) \<noteq> Inl UnrelatedTransactionException"
    proof (cases cr)
      case (Inl e)
      with cr c True assms ins show ?thesis
        by (auto simp: add_transaction_def Let_def)
    next
      case (Inr cs)
      obtain rr s2 where
        r: "resolve_conflicts depth (height (get_tx_height s tx_hash)) cs s1 = (rr, s2)"
        by (cases "resolve_conflicts depth (height (get_tx_height s tx_hash)) cs s1")
      with resolve_conflicts_not_unrelated [of depth "height (get_tx_height s tx_hash)" cs s1]
      have "rr \<noteq> Inl UnrelatedTransactionException" by simp
      with Inr c r True assms ins show ?thesis
        by (auto simp: add_transaction_def Let_def split: sum.splits bool.splits)
    qed
    with True rel show ?thesis by simp
  qed
qed

lemma find_output_address:
  "map_option fst (find_output dd n)
     = map_option fst (find (\<lambda>(addr, l). list_ex (\<lambda>(n', v, is_cb). n' = n) l) dd)"
proof (induction dd)
  case Nil
  then show ?case by simp
next
  case (Cons p dd)
  obtain addr l where p: "p = (addr, l)" by (cases p)
  define P :: "int \<times> int \<times> bool \<Rightarrow> bool" where "P = (\<lambda>(n', v, is_cb). n' = n)"
  have IH: "map_option fst (find_output dd n)
              = map_option fst (find (\<lambda>(addr, l). list_ex P l) dd)"
    using Cons.IH unfolding P_def .
  have "map_option fst (find_output ((addr, l) # dd) n)
          = map_option fst (find (\<lambda>(addr, l). list_ex P l) ((addr, l) # dd))"
  proof (cases "find P l")
    case None
    then have "\<not> list_ex P l"
      by (auto simp: find_None_iff list_ex_iff)
    have "find_output ((addr, l) # dd) n = find_output dd n"
      using None unfolding P_def by simp
    with \<open>\<not> list_ex P l\<close> IH show ?thesis by simp
  next
    case (Some e)
    then have "list_ex P l"
      by (auto simp: find_Some_iff list_ex_iff)
    obtain n' v cb where e: "e = (n', v, cb)" by (cases e)
    have "find_output ((addr, l) # dd) n = Some (addr, v)"
      using Some unfolding P_def e by simp
    with \<open>list_ex P l\<close> show ?thesis by simp
  qed
  then show ?case unfolding p P_def .
qed

lemma is_mine_get_txin_address:
  "is_mine s (get_txin_address s txin) = input_resolves_to_wallet s txin"
  by (cases "in_address txin")
     (auto simp: get_txin_address_def input_resolves_to_wallet_def embedded_address_def
        outpoint_address_def is_mine_def Let_def find_output_address split: option.splits)

lemma is_mine_get_txout_address:
  "is_mine s (get_txout_address p2pkh out) = output_pays_wallet p2pkh s out"
  by (cases "out_type out")
     (simp_all add: get_txout_address_def output_pays_wallet_def is_mine_def)

text \<open>
  Claim C9. \<^verbatim>\<open>add_transaction(txid, T, allow_unrelated=False)\<close>, called as its assertions
  require (a txid, a complete transaction, which has an input), raises
  \<^verbatim>\<open>UnrelatedTransactionException\<close> exactly when no input of \<open>T\<close> resolves to a wallet
  address and no output of \<open>T\<close> pays a wallet address. An input resolves by the address
  it carries, when it carries a usable one, and otherwise by the \<^verbatim>\<open>txo\<close> lookup of its
  outpoint: the first address under which \<^verbatim>\<open>txo[prevout_hash]\<close> records an output of index
  \<^verbatim>\<open>prevout_n\<close>. An output pays the address it names, or the address of the public key it
  names. When the call raises that exception the engine state is what it was before the
  call.
\<close>

theorem add_transaction_unrelated:
  assumes "tx_hash \<noteq> []" and "is_complete tx" and "inputs tx \<noteq> []"
  shows "(fst (add_transaction p2pkh depth tx_hash tx False s) = Inl UnrelatedTransactionException
            \<longleftrightarrow>
          \<not> (\<exists>txin \<in> set (inputs tx). input_resolves_to_wallet s txin) \<and>
          \<not> (\<exists>out \<in> set (outputs tx). output_pays_wallet p2pkh s out)) \<and>
         (fst (add_transaction p2pkh depth tx_hash tx False s) = Inl UnrelatedTransactionException
            \<longrightarrow> snd (add_transaction p2pkh depth tx_hash tx False s) = s)"
  using add_transaction_unrelated_guard [OF assms, of p2pkh depth s]
  unfolding is_mine_get_txin_address is_mine_get_txout_address .

theorem add_transaction_unrelated_witness:
  "add_transaction (\<lambda>x. x) 10 ''T1'' unrelated_tx False funded_state
     = (Inl UnrelatedTransactionException, funded_state) \<and>
   outpoint_address funded_state (hd (inputs sweep_tx)) = Some ''A'' \<and>
   fst (add_transaction (\<lambda>x. x) 10 ''S1'' sweep_tx False funded_state) = Inr True \<and>
   embedded_address (hd (inputs signed_tx)) = Some ''A'' \<and>
   fst (add_transaction (\<lambda>x. x) 10 ''S2'' signed_tx False funded_state) = Inr True"
proof -
  have h1: "''T1'' \<noteq> []" by simp
  have h2: "is_complete unrelated_tx" by (simp add: unrelated_tx_def)
  have h3: "inputs unrelated_tx \<noteq> []" by (simp add: unrelated_tx_def)
  have h4: "\<not> (\<exists>txin \<in> set (inputs unrelated_tx). input_resolves_to_wallet funded_state txin)"
    by code_simp
  have h5: "\<not> (\<exists>out \<in> set (outputs unrelated_tx). output_pays_wallet (\<lambda>x. x) funded_state out)"
    by code_simp
  have a: "add_transaction (\<lambda>x. x) 10 ''T1'' unrelated_tx False funded_state
             = (Inl UnrelatedTransactionException, funded_state)"
    using add_transaction_unrelated [OF h1 h2 h3, of "\<lambda>x. x" 10 funded_state] h4 h5
    by (simp add: prod_eq_iff)
  have s1: "''S1'' \<noteq> []" by simp
  have s2: "is_complete sweep_tx" by (simp add: sweep_tx_def)
  have s3: "inputs sweep_tx \<noteq> []" by (simp add: sweep_tx_def)
  have s4: "\<exists>txin \<in> set (inputs sweep_tx). input_resolves_to_wallet funded_state txin"
    by code_simp
  have b0: "fst (add_transaction (\<lambda>x. x) 10 ''S1'' sweep_tx False funded_state)
              \<noteq> Inl UnrelatedTransactionException"
    using add_transaction_unrelated [OF s1 s2 s3, of "\<lambda>x. x" 10 funded_state] s4
    by blast
  have b1: "fst (add_transaction (\<lambda>x. x) 10 ''S1'' sweep_tx False funded_state) = Inr True"
    by code_simp
  have b2: "outpoint_address funded_state (hd (inputs sweep_tx)) = Some ''A''"
    by code_simp
  have g1: "''S2'' \<noteq> []" by simp
  have g2: "is_complete signed_tx" by (simp add: signed_tx_def)
  have g3: "inputs signed_tx \<noteq> []" by (simp add: signed_tx_def)
  have g4: "\<exists>txin \<in> set (inputs signed_tx). input_resolves_to_wallet funded_state txin"
    by code_simp
  have c0: "fst (add_transaction (\<lambda>x. x) 10 ''S2'' signed_tx False funded_state)
              \<noteq> Inl UnrelatedTransactionException"
    using add_transaction_unrelated [OF g1 g2 g3, of "\<lambda>x. x" 10 funded_state] g4
    by blast
  have c1: "fst (add_transaction (\<lambda>x. x) 10 ''S2'' signed_tx False funded_state) = Inr True"
    by code_simp
  have c2: "embedded_address (hd (inputs signed_tx)) = Some ''A''"
    by code_simp
  from a b0 b1 b2 c0 c1 c2 show ?thesis by simp
qed

subsection \<open>Clearing the history\<close>

text \<open>
  Claim C2. After every mutating operation, \<^verbatim>\<open>clear_history\<close> among them,
  \<^verbatim>\<open>history_local[a]\<close> is the set of txids that have \<open>a\<close> as a key of \<^verbatim>\<open>txi\<close> or \<^verbatim>\<open>txo\<close>.
  The code does not keep it: \<^verbatim>\<open>clear_history\<close> empties \<^verbatim>\<open>txi\<close> and \<^verbatim>\<open>txo\<close> and leaves
  \<^verbatim>\<open>_history_local\<close> as it was. In the wallet that has received \<open>P\<close> the index is
  consistent; after \<^verbatim>\<open>clear_history\<close> it still lists \<open>P\<close> for \<open>A\<close>.
\<close>

theorem clear_history_keeps_local_history:
  "local_history_consistent funded_state \<and>
   dict_get (history_local (clear_history funded_state)) ''A'' [] = [''P''] \<and>
   txi (clear_history funded_state) = [] \<and>
   txo (clear_history funded_state) = [] \<and>
   \<not> local_history_consistent (clear_history funded_state)"
proof -
  have a: "local_history_consistent funded_state"
    by (auto simp: local_history_consistent_def funded_state_eq fresh_def dict_get_def
        tx_addresses_def split: if_splits)
  have b: "dict_get (history_local (clear_history funded_state)) ''A'' [] = [''P'']"
    "txi (clear_history funded_state) = []" "txo (clear_history funded_state) = []"
    by (simp_all add: clear_history_def save_transactions_def funded_state_eq fresh_def
        dict_get_def)
  have "\<not> local_history_consistent (clear_history funded_state)"
  proof
    assume "local_history_consistent (clear_history funded_state)"
    then have "''P'' \<in> set (dict_get (history_local (clear_history funded_state)) ''A'' [])
                 \<longleftrightarrow> ''A'' \<in> set (tx_addresses (clear_history funded_state) ''P'')"
      unfolding local_history_consistent_def by blast
    with b show False by (simp add: tx_addresses_def dict_get_def)
  qed
  with a b show ?thesis by simp
qed

subsection \<open>Conflicts between transactions\<close>

lemma dict_get_dd_touch [simp]: "dict_get (dd_touch k sp) h [] = dict_get sp h []"
proof (cases "dict_in k sp")
  case True
  then show ?thesis by (simp add: dd_touch_def)
next
  case False
  show ?thesis
  proof (cases "map_of sp h")
    case None
    with False show ?thesis
      by (simp add: dd_touch_def dict_get_def map_add_def)
  next
    case (Some v)
    with False show ?thesis
      by (simp add: dd_touch_def dict_get_def map_add_def)
  qed
qed

lemma spenders_dd_touch [simp]: "spenders (dd_touch k sp) h = spenders sp h"
  by (simp add: spenders_def)

lemma spend_edges_dd_touch [simp]: "spend_edges (dd_touch k sp) = spend_edges sp"
  by (simp add: spend_edges_def)






lemma fold_only_history_local:
  assumes "\<And>x s. \<exists>hl. f x s = s\<lparr>history_local := hl\<rparr>"
  shows "\<exists>hl. fold f xs s = s\<lparr>history_local := hl\<rparr>"
proof (induction xs arbitrary: s)
  case Nil
  have "s = s\<lparr>history_local := history_local s\<rparr>" by simp
  then show ?case by (metis fold_simps(1))
next
  case (Cons x xs)
  from assms [of x s] obtain h1 where 1: "f x s = s\<lparr>history_local := h1\<rparr>" by blast
  from Cons.IH [of "f x s"] obtain h2 where
    2: "fold f xs (f x s) = (f x s)\<lparr>history_local := h2\<rparr>" by blast
  have "fold f (x # xs) s = s\<lparr>history_local := h2\<rparr>"
    by (simp add: 2) (simp add: 1)
  then show ?case by blast
qed

lemma remove_tx_from_local_history_only:
  "\<exists>hl. remove_tx_from_local_history t s = s\<lparr>history_local := hl\<rparr>"
  unfolding remove_tx_from_local_history_def
proof (rule fold_only_history_local)
  fix addr s'
  let ?cur = "dict_get (history_local s') addr []"
  let ?step = "let cur_hist = dict_get (history_local s') addr []
            in if t \<in> set cur_hist
               then s'\<lparr>history_local := AList.update addr (removeAll t cur_hist) (history_local s')\<rparr>
               else s'"
  show "\<exists>hl. ?step = s'\<lparr>history_local := hl\<rparr>"
  proof (cases "t \<in> set ?cur")
    case True
    then have "?step = s'\<lparr>history_local := AList.update addr (removeAll t ?cur) (history_local s')\<rparr>"
      by (simp add: Let_def)
    then show ?thesis by (rule exI)
  next
    case False
    then have "?step = s'\<lparr>history_local := history_local s'\<rparr>"
      by (simp add: Let_def)
    then show ?thesis by (rule exI)
  qed
qed

lemma add_tx_to_local_history_only:
  "\<exists>hl. add_tx_to_local_history t s = s\<lparr>history_local := hl\<rparr>"
  unfolding add_tx_to_local_history_def
proof (rule fold_only_history_local)
  fix addr s'
  show "\<exists>hl. (let cur_hist = dict_get (history_local s') addr []
           in s'\<lparr>history_local := AList.update addr (List.insert t cur_hist) (history_local s')\<rparr>)
          = s'\<lparr>history_local := hl\<rparr>"
    unfolding Let_def by (rule exI) (rule refl)
qed

















subsection \<open>Adding a transaction and removing it again\<close>

lemma strip_Nil [simp]: "strip K t [] = []"
  by (simp add: strip_def)

lemma strip_Cons:
  "strip K t ((h, d) # sp) =
     (if h \<in> K \<and> filter (\<lambda>(n, x). x \<noteq> t) d = [] then strip K t sp
      else (h, filter (\<lambda>(n, x). x \<noteq> t) d) # strip K t sp)"
  by (simp add: strip_def)

lemma strip_append: "strip K t (sp @ sp') = strip K t sp @ strip K t sp'"
  by (simp add: strip_def)

lemma dict_get_Cons:
  "dict_get ((k, d) # sp) h dflt = (if k = h then d else dict_get sp h dflt)"
  by (simp add: dict_get_def)

lemma dict_get_Nil [simp]: "dict_get [] h dflt = dflt"
  by (simp add: dict_get_def)

lemma strip_touch: "k \<in> K \<Longrightarrow> strip K t (dd_touch k sp) = strip K t sp"
  by (simp add: dd_touch_def strip_append strip_Cons)

lemma strip_update:
  assumes "h \<in> K"
    and "filter (\<lambda>(n, x). x \<noteq> t) d' = filter (\<lambda>(n, x). x \<noteq> t) (dict_get sp h [])"
  shows "strip K t (AList.update h d' sp) = strip K t sp"
  using assms(2)
proof (induction sp)
  case Nil
  with assms(1) show ?case by (simp add: strip_Cons)
next
  case (Cons p sp)
  obtain k d where p: "p = (k, d)" by (cases p)
  show ?case
  proof (cases "k = h")
    case True
    with Cons.prems p show ?thesis by (simp add: strip_Cons dict_get_Cons)
  next
    case False
    with Cons.prems p have "filter (\<lambda>(n, x). x \<noteq> t) d'
        = filter (\<lambda>(n, x). x \<noteq> t) (dict_get sp h [])"
      by (simp add: dict_get_Cons)
    from Cons.IH [OF this] False p show ?thesis by (simp add: strip_Cons)
  qed
qed

lemma strip_delete_empty:
  assumes "distinct (map fst sp)" and "h \<in> K"
    and "filter (\<lambda>(n, x). x \<noteq> t) (dict_get sp h []) = []"
  shows "strip K t (AList.delete h sp) = strip K t sp"
  using assms(1,3)
proof (induction sp)
  case Nil
  then show ?case by simp
next
  case (Cons p sp)
  obtain k d where p: "p = (k, d)" by (cases p)
  show ?case
  proof (cases "k = h")
    case True
    with Cons.prems p have "h \<notin> fst ` set sp" by auto
    then have "AList.delete h sp = sp" by simp
    with True p Cons.prems(2) assms(2) show ?thesis
      by (simp add: strip_Cons dict_get_Cons)
  next
    case False
    with Cons.prems p have "distinct (map fst sp)"
      "filter (\<lambda>(n, x). x \<noteq> t) (dict_get sp h []) = []"
      by (simp_all add: dict_get_Cons)
    from Cons.IH [OF this] False p show ?thesis by (simp add: strip_Cons)
  qed
qed

lemma filter_update_own:
  "map_of d n = None \<or> map_of d n = Some t \<Longrightarrow>
   filter (\<lambda>(n, x). x \<noteq> t) (AList.update n t d) = filter (\<lambda>(n, x). x \<noteq> t) d"
  by (induction d) (auto split: if_splits)

lemma filter_delete_own:
  "\<forall>x. (n, x) \<in> set d \<longrightarrow> x = t \<Longrightarrow>
   filter (\<lambda>(n, x). x \<noteq> t) (AList.delete n d) = filter (\<lambda>(n, x). x \<noteq> t) d"
  by (induction d) auto

lemma distinct_dd_touch: "distinct (map fst sp) \<Longrightarrow> distinct (map fst (dd_touch k sp))"
  by (auto simp: dd_touch_def)

lemma distinct_sp_set: "distinct (map fst sp) \<Longrightarrow> distinct (map fst (sp_set h n t sp))"
  by (simp add: sp_set_def distinct_update)

lemma distinct_sp_pop: "distinct (map fst sp) \<Longrightarrow> distinct (map fst (sp_pop h n sp))"
  by (simp add: sp_pop_def Let_def distinct_update distinct_delete distinct_dd_touch)

lemma dict_get_update:
  "dict_get (AList.update h d sp) h' dflt = (if h' = h then d else dict_get sp h' dflt)"
  by (simp add: dict_get_def update_conv')

lemma dict_get_delete:
  "dict_get (AList.delete h sp) h' dflt = (if h' = h then dflt else dict_get sp h' dflt)"
  by (simp add: dict_get_def delete_conv')

lemma dict_get_sp_set:
  "dict_get (sp_set h n t sp) h' [] =
     (if h' = h then AList.update n t (dict_get sp h []) else dict_get sp h' [])"
  by (simp add: sp_set_def dict_get_update)

lemma dict_get_sp_pop:
  "dict_get (sp_pop h n sp) h' [] =
     (if h' = h then AList.delete n (dict_get sp h []) else dict_get sp h' [])"
  by (simp add: sp_pop_def Let_def dict_get_update dict_get_delete)

lemma keys_dd_touch: "fst ` set (dd_touch k sp) = insert k (fst ` set sp)"
  by (auto simp: dd_touch_def)

lemma dict_in_sp_pop:
  "dict_in h' (sp_pop h n sp) \<longleftrightarrow>
     (if h' = h then AList.delete n (dict_get sp h []) \<noteq> [] else dict_in h' sp)"
  by (simp add: sp_pop_def Let_def dom_update keys_delete keys_dd_touch)

lemma strip_sp_set:
  assumes "h \<in> K"
    and "map_of (dict_get sp h []) n = None \<or> map_of (dict_get sp h []) n = Some t"
  shows "strip K t (sp_set h n t sp) = strip K t sp"
  unfolding sp_set_def
  by (rule strip_update [OF assms(1)]) (rule filter_update_own [OF assms(2)])

lemma strip_sp_pop:
  assumes "distinct (map fst sp)" and "h \<in> K"
    and "\<forall>x. (n, x) \<in> set (dict_get sp h []) \<longrightarrow> x = t"
  shows "strip K t (sp_pop h n sp) = strip K t sp"
proof -
  let ?sp1 = "dd_touch h sp"
  let ?d = "AList.delete n (dict_get ?sp1 h [])"
  let ?sp2 = "AList.update h ?d ?sp1"
  have f: "filter (\<lambda>(n, x). x \<noteq> t) ?d = filter (\<lambda>(n, x). x \<noteq> t) (dict_get ?sp1 h [])"
    using assms(3) by (simp add: filter_delete_own)
  have s2: "strip K t ?sp2 = strip K t sp"
    using strip_update [OF assms(2) f] strip_touch [OF assms(2)] by simp
  show ?thesis
  proof (cases "?d = []")
    case True
    have d2: "distinct (map fst ?sp2)"
      using assms(1) by (simp add: distinct_update distinct_dd_touch)
    have "filter (\<lambda>(n, x). x \<noteq> t) (dict_get ?sp2 h []) = []"
      using True by (simp add: dict_get_update)
    from strip_delete_empty [OF d2 assms(2) this] True s2 show ?thesis
      by (simp add: sp_pop_def Let_def)
  next
    case False
    with s2 show ?thesis by (simp add: sp_pop_def Let_def)
  qed
qed

lemma strip_id:
  assumes "\<forall>(h, d) \<in> set sp. (\<forall>(n, x) \<in> set d. x \<noteq> t) \<and> \<not> (h \<in> K \<and> d = [])"
  shows "strip K t sp = sp"
  using assms
proof (induction sp)
  case Nil
  then show ?case by simp
next
  case (Cons p sp)
  obtain h d where p: "p = (h, d)" by (cases p)
  from Cons.prems p have a: "\<forall>(n, x) \<in> set d. x \<noteq> t" and b: "\<not> (h \<in> K \<and> d = [])"
    and rest: "\<forall>(h, d) \<in> set sp. (\<forall>(n, x) \<in> set d. x \<noteq> t) \<and> \<not> (h \<in> K \<and> d = [])"
    by auto
  from a have f: "filter (\<lambda>(n, x). x \<noteq> t) d = d"
    by (auto intro: filter_True)
  from Cons.IH [OF rest] f b p show ?case by (simp add: strip_Cons)
qed

lemma distinct_entry:
  "distinct (map fst sp) \<Longrightarrow> (h, d) \<in> set sp \<Longrightarrow> dict_get sp h [] = d \<and> dict_in h sp"
  by (auto simp: dict_get_def rev_image_eqI)

lemma sp_inv_touch: "k \<in> K \<Longrightarrow> sp_inv sp0 t K Vs sp \<Longrightarrow> sp_inv sp0 t K Vs (dd_touch k sp)"
  by (simp add: sp_inv_def distinct_dd_touch strip_touch)

lemma set_update_subset: "set (AList.update n v d) \<subseteq> insert (n, v) (set d)"
  by (induction d) auto

lemma set_update_keeps:
  "(m, x) \<in> set d \<Longrightarrow> (m, x) \<in> set (AList.update n x d)"
  by (induction d) auto

lemma set_update_new: "(n, v) \<in> set (AList.update n v d)"
  by (induction d) auto

lemma set_delete_subset: "set (AList.delete n d) \<subseteq> set d"
  by (auto simp: AList.delete_eq)

lemma set_delete_key: "(n, x) \<notin> set (AList.delete n d)"
  by (auto simp: AList.delete_eq)

lemma sp_inv_set:
  assumes "sp_inv sp0 t K Vs sp" and "h \<in> K" and "(h, n) \<in> Vs"
    and "n \<notin> fst ` set (dict_get sp0 h [])"
  shows "sp_inv sp0 t K Vs (sp_set h n t sp)"
proof -
  from assms(1) have d: "distinct (map fst sp)" and st: "strip K t sp = sp0"
    and G: "\<forall>h n x. (n, x) \<in> set (dict_get sp h []) \<longrightarrow> x = t \<or> (n, x) \<in> set (dict_get sp0 h [])"
    and V: "\<forall>h n. (n, t) \<in> set (dict_get sp h []) \<longrightarrow> (h, n) \<in> Vs"
    by (simp_all add: sp_inv_def)
  have m: "map_of (dict_get sp h []) n = None \<or> map_of (dict_get sp h []) n = Some t"
  proof (cases "map_of (dict_get sp h []) n")
    case None
    then show ?thesis by simp
  next
    case (Some x)
    then have "(n, x) \<in> set (dict_get sp h [])" by (rule map_of_SomeD)
    with G have "x = t \<or> (n, x) \<in> set (dict_get sp0 h [])" by blast
    with assms(4) have "x = t" by (auto simp: rev_image_eqI)
    with Some show ?thesis by simp
  qed
  have G': "x = t \<or> (m, x) \<in> set (dict_get sp0 h' [])"
    if "(m, x) \<in> set (dict_get (sp_set h n t sp) h' [])" for h' m x
  proof (cases "h' = h")
    case True
    with that have "(m, x) \<in> set (AList.update n t (dict_get sp h []))"
      by (simp add: dict_get_sp_set)
    with set_update_subset [of n t "dict_get sp h []"]
    have "(m, x) = (n, t) \<or> (m, x) \<in> set (dict_get sp h [])" by auto
    with G True show ?thesis by auto
  next
    case False
    with that G show ?thesis by (simp add: dict_get_sp_set)
  qed
  have V': "(h', m) \<in> Vs" if "(m, t) \<in> set (dict_get (sp_set h n t sp) h' [])" for h' m
  proof (cases "h' = h")
    case True
    with that have "(m, t) \<in> set (AList.update n t (dict_get sp h []))"
      by (simp add: dict_get_sp_set)
    with set_update_subset [of n t "dict_get sp h []"]
    have "m = n \<or> (m, t) \<in> set (dict_get sp h [])" by auto
    with V True assms(3) show ?thesis by auto
  next
    case False
    with that V show ?thesis by (simp add: dict_get_sp_set)
  qed
  from d st strip_sp_set [OF assms(2) m] G' V' show ?thesis
    unfolding sp_inv_def by (simp add: distinct_sp_set)
qed

lemma sp_set_recorded:
  "(m, t) \<in> set (dict_get sp h' []) \<or> (h' = h \<and> m = n) \<Longrightarrow>
   (m, t) \<in> set (dict_get (sp_set h n t sp) h' [])"
  by (auto simp: dict_get_sp_set set_update_keeps set_update_new)

lemma outpoints_Nil [simp]: "outpoints [] = {}"
  by (simp add: outpoints_def)

lemma outpoints_Cons:
  "outpoints (i # ins) =
     (if in_type i = ''coinbase'' then {} else {(prevout_hash i, prevout_n i)}) \<union> outpoints ins"
  by (auto simp: outpoints_def)

lemma outpoints_mono: "outpoints ins \<subseteq> outpoints (i # ins)"
  by (simp add: outpoints_Cons)

lemma touch_inputs_inv:
  assumes "sp_inv sp0 t K Vs sp" and "fst ` outpoints ins \<subseteq> K"
  shows "sp_inv sp0 t K Vs (touch_inputs ins sp)"
  using assms
proof (induction ins arbitrary: sp)
  case Nil
  then show ?case by (simp add: touch_inputs_def)
next
  case (Cons i ins)
  have sub: "fst ` outpoints ins \<subseteq> K"
    using Cons.prems(2) outpoints_mono [of ins i] by blast
  show ?case
  proof (cases "in_type i = ''coinbase''")
    case True
    with Cons.IH [OF Cons.prems(1) sub] show ?thesis by (simp add: touch_inputs_def)
  next
    case False
    then have "prevout_hash i \<in> K"
      using Cons.prems(2) by (simp add: outpoints_Cons)
    from sp_inv_touch [OF this Cons.prems(1)] Cons.IH [OF _ sub] False show ?thesis
      by (simp add: touch_inputs_def)
  qed
qed

lemma set_inputs_inv:
  assumes "sp_inv sp0 t K Vs sp" and "fst ` outpoints ins \<subseteq> K" and "outpoints ins \<subseteq> Vs"
    and "\<forall>(h, n) \<in> outpoints ins. n \<notin> fst ` set (dict_get sp0 h [])"
    and "\<forall>(h, n) \<in> R. (n, t) \<in> set (dict_get sp h [])"
  shows "sp_inv sp0 t K Vs (set_inputs t ins sp) \<and>
         (\<forall>(h, n) \<in> R \<union> outpoints ins. (n, t) \<in> set (dict_get (set_inputs t ins sp) h []))"
  using assms
proof (induction ins arbitrary: sp R)
  case Nil
  then show ?case by (simp add: set_inputs_def)
next
  case (Cons i ins)
  have sub: "fst ` outpoints ins \<subseteq> K" "outpoints ins \<subseteq> Vs"
    "\<forall>(h, n) \<in> outpoints ins. n \<notin> fst ` set (dict_get sp0 h [])"
    using Cons.prems(2,3,4) outpoints_mono [of ins i] by blast+
  show ?case
  proof (cases "in_type i = ''coinbase''")
    case True
    then have o: "outpoints (i # ins) = outpoints ins" by (simp add: outpoints_Cons)
    from Cons.IH [OF Cons.prems(1) sub Cons.prems(5)] True show ?thesis
      by (simp add: set_inputs_def o)
  next
    case False
    let ?h = "prevout_hash i" and ?n = "prevout_n i"
    from False have o: "outpoints (i # ins) = insert (?h, ?n) (outpoints ins)"
      by (simp add: outpoints_Cons)
    from Cons.prems(2,3,4) have "?h \<in> K" "(?h, ?n) \<in> Vs"
      "?n \<notin> fst ` set (dict_get sp0 ?h [])" by (simp_all add: o)
    from sp_inv_set [OF Cons.prems(1) this]
    have inv1: "sp_inv sp0 t K Vs (sp_set ?h ?n t sp)" .
    have rec1: "\<forall>(h, n) \<in> insert (?h, ?n) R.
                  (n, t) \<in> set (dict_get (sp_set ?h ?n t sp) h [])"
    proof (clarify)
      fix h n assume "(h, n) \<in> insert (?h, ?n) R"
      with Cons.prems(5) have "(n, t) \<in> set (dict_get sp h []) \<or> (h = ?h \<and> n = ?n)"
        by auto
      then show "(n, t) \<in> set (dict_get (sp_set ?h ?n t sp) h [])"
        by (rule sp_set_recorded)
    qed
    have u: "R \<union> outpoints (i # ins) = insert (?h, ?n) R \<union> outpoints ins"
      by (simp add: o)
    have f: "set_inputs t (i # ins) sp = set_inputs t ins (sp_set ?h ?n t sp)"
      using False by (simp add: set_inputs_def)
    show ?thesis
      unfolding u f by (rule Cons.IH [OF inv1 sub rec1])
  qed
qed

lemma sp_inv_pop:
  assumes "sp_inv sp0 t K (insert (h, n) Vs) sp" and "no_empty_inputs K t sp"
    and "h \<in> K" and "n \<notin> fst ` set (dict_get sp0 h [])"
  shows "sp_inv sp0 t K Vs (sp_pop h n sp) \<and> no_empty_inputs K t (sp_pop h n sp)"
proof -
  from assms(1) have d: "distinct (map fst sp)" and st: "strip K t sp = sp0"
    and G: "\<forall>h n x. (n, x) \<in> set (dict_get sp h []) \<longrightarrow> x = t \<or> (n, x) \<in> set (dict_get sp0 h [])"
    and V: "\<forall>h' m. (m, t) \<in> set (dict_get sp h' []) \<longrightarrow> (h', m) \<in> insert (h, n) Vs"
    by (simp_all add: sp_inv_def)
  have own: "\<forall>x. (n, x) \<in> set (dict_get sp h []) \<longrightarrow> x = t"
  proof (intro allI impI)
    fix x assume a: "(n, x) \<in> set (dict_get sp h [])"
    with G have "x = t \<or> (n, x) \<in> set (dict_get sp0 h [])" by blast
    with assms(4) show "x = t" by (auto simp: rev_image_eqI)
  qed
  have G': "x = t \<or> (m, x) \<in> set (dict_get sp0 h' [])"
    if "(m, x) \<in> set (dict_get (sp_pop h n sp) h' [])" for h' m x
  proof -
    from that set_delete_subset [of n "dict_get sp h []"]
    have "(m, x) \<in> set (dict_get sp h' [])"
      by (auto simp: dict_get_sp_pop split: if_splits)
    with G show ?thesis by blast
  qed
  have V': "(h', m) \<in> Vs" if "(m, t) \<in> set (dict_get (sp_pop h n sp) h' [])" for h' m
  proof (cases "h' = h")
    case True
    with that have in_del: "(m, t) \<in> set (AList.delete n (dict_get sp h []))"
      by (simp add: dict_get_sp_pop)
    with set_delete_key [of n t "dict_get sp h []"] have "m \<noteq> n" by auto
    moreover from in_del set_delete_subset [of n "dict_get sp h []"]
    have "(m, t) \<in> set (dict_get sp h [])" by auto
    ultimately show ?thesis using V True by auto
  next
    case False
    with that have "(m, t) \<in> set (dict_get sp h' [])" by (simp add: dict_get_sp_pop)
    with V False show ?thesis by auto
  qed
  have E: "no_empty_inputs K t (sp_pop h n sp)"
    using assms(2) by (auto simp: no_empty_inputs_def dict_in_sp_pop dict_get_sp_pop)
  from d st strip_sp_pop [OF d assms(3) own] G' V' E show ?thesis
    unfolding sp_inv_def by (simp add: distinct_sp_pop)
qed

lemma remove_inputs_inv:
  assumes "sp_inv sp0 t K (outpoints ins) sp" and "no_empty_inputs K t sp"
    and "fst ` outpoints ins \<subseteq> K"
    and "\<forall>(h, n) \<in> outpoints ins. n \<notin> fst ` set (dict_get sp0 h [])"
  shows "sp_inv sp0 t K {} (remove_inputs_from_spent_outpoints ins sp) \<and>
         no_empty_inputs K t (remove_inputs_from_spent_outpoints ins sp)"
  using assms
proof (induction ins arbitrary: sp)
  case Nil
  then show ?case by (simp add: remove_inputs_from_spent_outpoints_def)
next
  case (Cons i ins)
  have sub: "fst ` outpoints ins \<subseteq> K"
    "\<forall>(h, n) \<in> outpoints ins. n \<notin> fst ` set (dict_get sp0 h [])"
    using Cons.prems(3,4) outpoints_mono [of ins i] by blast+
  show ?case
  proof (cases "in_type i = ''coinbase''")
    case True
    then have o: "outpoints (i # ins) = outpoints ins" by (simp add: outpoints_Cons)
    from Cons.IH [OF _ Cons.prems(2) sub] Cons.prems(1) True show ?thesis
      by (simp add: remove_inputs_from_spent_outpoints_def o)
  next
    case False
    let ?h = "prevout_hash i" and ?n = "prevout_n i"
    from False have o: "outpoints (i # ins) = insert (?h, ?n) (outpoints ins)"
      by (simp add: outpoints_Cons)
    from Cons.prems(3,4) have hk: "?h \<in> K" and un: "?n \<notin> fst ` set (dict_get sp0 ?h [])"
      by (simp_all add: o)
    from Cons.prems(1) have "sp_inv sp0 t K (insert (?h, ?n) (outpoints ins)) sp"
      by (simp add: o)
    from sp_inv_pop [OF this Cons.prems(2) hk un]
    have i1: "sp_inv sp0 t K (outpoints ins) (sp_pop ?h ?n sp)"
      and e1: "no_empty_inputs K t (sp_pop ?h ?n sp)" by simp_all
    have f: "remove_inputs_from_spent_outpoints (i # ins) sp
               = remove_inputs_from_spent_outpoints ins (sp_pop ?h ?n sp)"
      using False by (simp add: remove_inputs_from_spent_outpoints_def)
    show ?thesis
      unfolding f by (rule Cons.IH [OF i1 e1 sub])
  qed
qed

lemma spent_outpoints_roundtrip:
  assumes A1: "distinct (map fst sp0)"
    and A2: "\<forall>(h, d) \<in> set sp0. \<forall>(n, x) \<in> set d. x \<noteq> t"
    and A3: "\<forall>(h, d) \<in> set sp0. h \<in> insert t (fst ` outpoints (inputs tx)) \<longrightarrow> d \<noteq> []"
    and A4: "\<forall>(h, n) \<in> outpoints (inputs tx). n \<notin> fst ` set (dict_get sp0 h [])"
    and sp3: "sp3 = set_inputs t (inputs tx) (touch_inputs (inputs tx) sp0) \<or>
              sp3 = dd_touch t (set_inputs t (inputs tx) (touch_inputs (inputs tx) sp0))"
  shows "remove_from_spent_outpoints (Some tx) t sp3 = (Inr (), sp0)"
proof -
  define K where "K = insert t (fst ` outpoints (inputs tx))"
  let ?OP = "outpoints (inputs tx)"
  have kin: "fst ` ?OP \<subseteq> K" and tk: "t \<in> K" by (auto simp: K_def)
  have notin0: "(n, t) \<notin> set (dict_get sp0 h [])" for h n
  proof (cases "map_of sp0 h")
    case None
    then show ?thesis by (simp add: dict_get_def)
  next
    case (Some d)
    then have "(h, d) \<in> set sp0" by (rule map_of_SomeD)
    with A2 have "\<forall>(n, x) \<in> set d. x \<noteq> t" by blast
    with Some show ?thesis by (auto simp: dict_get_def)
  qed
  have s0: "strip K t sp0 = sp0"
    by (rule strip_id) (use A2 A3 in \<open>auto simp: K_def\<close>)
  have inv0: "sp_inv sp0 t K ?OP sp0"
    using A1 s0 notin0 by (simp add: sp_inv_def)
  have inv1: "sp_inv sp0 t K ?OP (touch_inputs (inputs tx) sp0)"
    by (rule touch_inputs_inv [OF inv0 kin])
  have "sp_inv sp0 t K ?OP (set_inputs t (inputs tx) (touch_inputs (inputs tx) sp0)) \<and>
        (\<forall>(h, n) \<in> {} \<union> ?OP.
           (n, t) \<in> set (dict_get (set_inputs t (inputs tx) (touch_inputs (inputs tx) sp0)) h []))"
    by (rule set_inputs_inv [OF inv1 kin _ A4]) simp_all
  then have inv3: "sp_inv sp0 t K ?OP sp3"
    and rec3: "\<forall>(h, n) \<in> ?OP. (n, t) \<in> set (dict_get sp3 h [])"
    using sp3 tk by (auto simp: sp_inv_touch)
  have e3: "no_empty_inputs K t sp3"
    unfolding no_empty_inputs_def
  proof (intro ballI impI)
    fix h assume "h \<in> K" "h \<noteq> t"
    then obtain n where "(h, n) \<in> ?OP" by (auto simp: K_def)
    with rec3 have "(n, t) \<in> set (dict_get sp3 h [])" by blast
    then show "dict_get sp3 h [] \<noteq> []" by auto
  qed
  let ?sp4 = "remove_inputs_from_spent_outpoints (inputs tx) sp3"
  from remove_inputs_inv [OF inv3 e3 kin A4]
  have inv4: "sp_inv sp0 t K {} ?sp4" and e4: "no_empty_inputs K t ?sp4" by simp_all
  let ?sp5 = "dd_touch t ?sp4"
  define sp6 where "sp6 = (if dict_get ?sp5 t [] = [] then AList.delete t ?sp5 else ?sp5)"
  have res: "remove_from_spent_outpoints (Some tx) t sp3 = (Inr (), sp6)"
    by (simp add: remove_from_spent_outpoints_def Let_def sp6_def)
  from sp_inv_touch [OF tk inv4] have inv5: "sp_inv sp0 t K {} ?sp5" .
  then have d5: "distinct (map fst ?sp5)" and s5: "strip K t ?sp5 = sp0"
    and V5: "\<forall>h n. (n, t) \<notin> set (dict_get ?sp5 h [])"
    by (simp_all add: sp_inv_def)
  have d6: "distinct (map fst sp6)"
    using d5 by (simp add: sp6_def distinct_delete)
  have s6: "strip K t sp6 = sp0"
  proof (cases "dict_get ?sp5 t [] = []")
    case True
    then have "filter (\<lambda>(n, x). x \<noteq> t) (dict_get ?sp5 t []) = []" by simp
    from strip_delete_empty [OF d5 tk this] True s5 show ?thesis by (simp add: sp6_def)
  next
    case False
    with s5 show ?thesis by (simp add: sp6_def)
  qed
  have g6: "dict_get sp6 h [] = dict_get ?sp4 h []" for h
    by (auto simp: sp6_def dict_get_delete)
  have in6: "dict_in h sp6 \<Longrightarrow> h \<noteq> t \<Longrightarrow> dict_in h ?sp4" for h
    by (auto simp: sp6_def keys_delete keys_dd_touch split: if_splits)
  have t6: "dict_in t sp6 \<Longrightarrow> dict_get sp6 t [] \<noteq> []"
    by (auto simp: sp6_def keys_delete split: if_splits)
  have "strip K t sp6 = sp6"
  proof (rule strip_id, clarify)
    fix h d assume hd: "(h, d) \<in> set sp6"
    from distinct_entry [OF d6 hd] have dg: "dict_get sp6 h [] = d" and di: "dict_in h sp6"
      by simp_all
    have a: "\<forall>(n, x) \<in> set d. x \<noteq> t"
      using V5 dg g6 [of h] by auto
    have b: "\<not> (h \<in> K \<and> d = [])"
    proof (cases "h = t")
      case True
      with t6 di dg show ?thesis by auto
    next
      case False
      with in6 [OF di] e4 dg g6 [of h] show ?thesis
        by (auto simp: no_empty_inputs_def)
    qed
    from a b show "(\<forall>(n, x) \<in> set d. x \<noteq> t) \<and> \<not> (h \<in> K \<and> d = [])" by simp
  qed
  with s6 res show ?thesis by simp
qed

lemma update_fresh: "t \<notin> fst ` set al \<Longrightarrow> AList.update t v al = al @ [(t, v)]"
  by (induction al) auto

lemma update_own: "t \<notin> fst ` set base \<Longrightarrow> AList.update t v (base @ [(t, x)]) = base @ [(t, v)]"
  by (induction base) auto

lemma delete_own: "t \<notin> fst ` set base \<Longrightarrow> AList.delete t (base @ [(t, x)]) = base"
  by (induction base) auto

lemma map_of_own: "t \<notin> fst ` set base \<Longrightarrow> map_of (base @ [(t, x)]) t = Some x"
  by (induction base) auto

lemma conflicting_loop_unspent:
  assumes "\<forall>(h, n) \<in> outpoints ins. n \<notin> fst ` set (dict_get (spent_outpoints s) h [])"
  shows "conflicting_loop ins acc s
           = (Inr acc, s\<lparr>spent_outpoints := touch_inputs ins (spent_outpoints s)\<rparr>)"
  using assms
proof (induction ins arbitrary: s)
  case Nil
  then show ?case by (simp add: touch_inputs_def)
next
  case (Cons i ins)
  show ?case
  proof (cases "in_type i = ''coinbase''")
    case True
    then have o: "outpoints (i # ins) = outpoints ins" by (simp add: outpoints_Cons)
    from Cons.IH [of s] Cons.prems True show ?thesis
      by (simp add: touch_inputs_def o)
  next
    case False
    let ?h = "prevout_hash i" and ?n = "prevout_n i"
    let ?s1 = "s\<lparr>spent_outpoints := dd_touch ?h (spent_outpoints s)\<rparr>"
    from False have o: "outpoints (i # ins) = insert (?h, ?n) (outpoints ins)"
      by (simp add: outpoints_Cons)
    from Cons.prems have "?n \<notin> fst ` set (dict_get (spent_outpoints s) ?h [])"
      by (simp add: o)
    then have none: "map_of (dict_get (spent_outpoints ?s1) ?h []) ?n = None"
      by (simp add: map_of_eq_None_iff)
    have "\<forall>(h, n) \<in> outpoints ins. n \<notin> fst ` set (dict_get (spent_outpoints ?s1) h [])"
      using Cons.prems by (simp add: o)
    from Cons.IH [OF this] none False show ?thesis
      by (simp add: Let_def touch_inputs_def)
  qed
qed

lemma add_input_fold:
  assumes "txi s' = base @ [(t, X)]" and "t \<notin> fst ` set base"
  shows "\<exists>X'. fold (add_input t) ins s'
           = s'\<lparr>spent_outpoints := set_inputs t ins (spent_outpoints s'),
                txi := base @ [(t, X')]\<rparr>"
  using assms(1)
proof (induction ins arbitrary: s' X)
  case Nil
  then have "fold (add_input t) [] s'
      = s'\<lparr>spent_outpoints := set_inputs t [] (spent_outpoints s'), txi := base @ [(t, X)]\<rparr>"
    by (simp add: set_inputs_def)
  then show ?case by (rule exI)
next
  case (Cons i ins)
  show ?case
  proof (cases "in_type i = ''coinbase''")
    case True
    from Cons.IH [OF Cons.prems] obtain X' where
      "fold (add_input t) ins s'
         = s'\<lparr>spent_outpoints := set_inputs t ins (spent_outpoints s'), txi := base @ [(t, X')]\<rparr>" ..
    with True have "fold (add_input t) (i # ins) s'
         = s'\<lparr>spent_outpoints := set_inputs t (i # ins) (spent_outpoints s'),
              txi := base @ [(t, X')]\<rparr>"
      by (simp add: add_input_def set_inputs_def)
    then show ?thesis by (rule exI)
  next
    case False
    let ?sp1 = "sp_set (prevout_hash i) (prevout_n i) t (spent_outpoints s')"
    let ?s1 = "s'\<lparr>spent_outpoints := ?sp1\<rparr>"
    define Z where "Z = add_value_from_prev_output ?s1 i (dict_get (txi ?s1) t [])"
    let ?s2 = "s'\<lparr>spent_outpoints := ?sp1, txi := base @ [(t, Z)]\<rparr>"
    have step: "add_input t i s' = ?s2"
      using False Cons.prems assms(2) by (simp add: add_input_def Let_def Z_def update_own)
    have "txi ?s2 = base @ [(t, Z)]" by simp
    from Cons.IH [OF this] obtain X' where
      "fold (add_input t) ins ?s2
         = ?s2\<lparr>spent_outpoints := set_inputs t ins (spent_outpoints ?s2), txi := base @ [(t, X')]\<rparr>" ..
    with step False have "fold (add_input t) (i # ins) s'
         = s'\<lparr>spent_outpoints := set_inputs t (i # ins) (spent_outpoints s'),
              txi := base @ [(t, X')]\<rparr>"
      by (simp add: set_inputs_def)
    then show ?thesis by (rule exI)
  qed
qed

lemma dd_touch_idem [simp]: "dd_touch k (dd_touch k sp) = dd_touch k sp"
  by (simp add: dd_touch_def)

lemma give_value_to_spender_own:
  assumes "txi s' = base @ [(t, X)]" and "t \<notin> fst ` set base"
  shows "\<exists>X' hl. give_value_to_spender t a ser v s'
           = s'\<lparr>txi := base @ [(t, X')], history_local := hl\<rparr>"
proof -
  define X' where "X' = AList.update a (List.insert (ser, v) (dict_get X a [])) X"
  let ?s1 = "s'\<lparr>txi := base @ [(t, X')]\<rparr>"
  from add_tx_to_local_history_only [of t ?s1] obtain hl where
    "add_tx_to_local_history t ?s1 = ?s1\<lparr>history_local := hl\<rparr>" ..
  moreover have mo: "map_of (txi s') t = Some X"
    unfolding assms(1) using assms(2) by (rule map_of_own)
  moreover have "AList.update t X' (txi s') = base @ [(t, X')]"
    unfolding assms(1) using assms(2) by (rule update_own)
  ultimately have "give_value_to_spender t a ser v s' = s'\<lparr>txi := base @ [(t, X')], history_local := hl\<rparr>"
    by (simp add: give_value_to_spender_def Let_def X'_def)
  then show ?thesis by blast
qed

lemma add_output_frame:
  assumes f: "out_frame t base base_o s0 s'"
    and W: "\<forall>(n, x) \<in> set (dict_get (spent_outpoints s0) t []). x = t"
    and b: "t \<notin> fst ` set base" and bo: "t \<notin> fst ` set base_o"
  shows "out_frame t base base_o s0 (add_output p2pkh t cb item s')"
proof -
  obtain n out where item: "item = (n, out)" by (cases item)
  from f obtain X Y where tr: "transactions s' = transactions s0"
    and fe: "tx_fees s' = tx_fees s0" and hi: "history s' = history s0"
    and X: "txi s' = base @ [(t, X)]" and Y: "txo s' = base_o @ [(t, Y)]"
    and sp: "spent_outpoints s' = spent_outpoints s0 \<or>
             spent_outpoints s' = dd_touch t (spent_outpoints s0)"
    by (auto simp: out_frame_def)
  from sp have spt: "dd_touch t (spent_outpoints s') = dd_touch t (spent_outpoints s0)"
    by auto
  from sp have dgs: "dict_get (spent_outpoints s') t [] = dict_get (spent_outpoints s0) t []"
    by auto
  show ?thesis
  proof (cases "get_txout_address p2pkh out")
    case None
    with item f show ?thesis by (simp add: add_output_def Let_def)
  next
    case (Some a)
    show ?thesis
    proof (cases "a \<noteq> [] \<and> is_mine s' (Some a)")
      case False
      with item Some f show ?thesis by (auto simp: add_output_def Let_def)
    next
      case True
      define d1 where "d1 = AList.update a (dict_get Y a [] @ [(int n, out_value out, cb)]) Y"
      let ?s2 = "s'\<lparr>txo := base_o @ [(t, d1)],
                    spent_outpoints := dd_touch t (spent_outpoints s0)\<rparr>"
      have moY: "map_of (txo s') t = Some Y"
        unfolding Y using bo by (rule map_of_own)
      have dg: "dict_get (txo s') t [] = Y"
        by (simp add: dict_get_def moY)
      have upY: "AList.update t v (txo s') = base_o @ [(t, v)]" for v
        unfolding Y using bo by (rule update_own)
      have f2: "out_frame t base base_o s0 ?s2"
        using tr fe hi X by (simp add: out_frame_def)
      show ?thesis
      proof (cases "map_of (dict_get (spent_outpoints s0) t []) (int n)")
        case None
        have "add_output p2pkh t cb item s' = ?s2"
          using item Some True None dg dgs spt upY
          by (simp add: add_output_def Let_def d1_def)
        with f2 show ?thesis by simp
      next
        case sm: (Some nt)
        then have "(int n, nt) \<in> set (dict_get (spent_outpoints s0) t [])"
          by (rule map_of_SomeD)
        with W have nt: "nt = t" by auto
        have X2: "txi ?s2 = base @ [(t, X)]" using X by simp
        from give_value_to_spender_own [OF X2 b, of a "(t, int n)" "out_value out"]
        obtain X' hl where
          g: "give_value_to_spender t a (t, int n) (out_value out) ?s2
                = ?s2\<lparr>txi := base @ [(t, X')], history_local := hl\<rparr>"
          by blast
        have "add_output p2pkh t cb item s'
                = ?s2\<lparr>txi := base @ [(t, X')], history_local := hl\<rparr>"
          using item Some True sm nt dg dgs spt g upY
          by (simp add: add_output_def Let_def d1_def)
        moreover have "out_frame t base base_o s0 (?s2\<lparr>txi := base @ [(t, X')], history_local := hl\<rparr>)"
          using tr fe hi by (simp add: out_frame_def)
        ultimately show ?thesis by simp
      qed
    qed
  qed
qed

lemma add_output_fold_frame:
  assumes "out_frame t base base_o s0 s'"
    and "\<forall>(n, x) \<in> set (dict_get (spent_outpoints s0) t []). x = t"
    and "t \<notin> fst ` set base" and "t \<notin> fst ` set base_o"
  shows "out_frame t base base_o s0 (fold (add_output p2pkh t cb) outs s')"
  using assms(1)
proof (induction outs arbitrary: s')
  case Nil
  then show ?case by simp
next
  case (Cons item outs)
  from add_output_frame [OF Cons.prems assms(2,3,4)]
  have "out_frame t base base_o s0 (add_output p2pkh t cb item s')" .
  from Cons.IH [OF this] show ?case by simp
qed

lemma remove_transaction_fields:
  assumes "map_of (transactions s) t = Some tx"
  shows "\<exists>hl. remove_transaction t s =
           (Inr (),
            s\<lparr>transactions := AList.delete t (transactions s),
              spent_outpoints := snd (remove_from_spent_outpoints (Some tx) t (spent_outpoints s)),
              history_local := hl,
              txi := AList.delete t (txi s), txo := AList.delete t (txo s)\<rparr>)"
proof -
  have f: "fst (remove_from_spent_outpoints (Some tx) t sp) = Inr ()" for sp
    by (simp add: remove_from_spent_outpoints_def Let_def)
  obtain sp1 where sp1: "remove_from_spent_outpoints (Some tx) t (spent_outpoints s) = (Inr (), sp1)"
    using f [of "spent_outpoints s"]
    by (cases "remove_from_spent_outpoints (Some tx) t (spent_outpoints s)") auto
  let ?s1 = "s\<lparr>transactions := AList.delete t (transactions s), spent_outpoints := sp1\<rparr>"
  from remove_tx_from_local_history_only [of t ?s1] obtain hl where
    r: "remove_tx_from_local_history t ?s1 = ?s1\<lparr>history_local := hl\<rparr>" ..
  have "remove_transaction t s =
           (Inr (),
            s\<lparr>transactions := AList.delete t (transactions s),
              spent_outpoints := snd (remove_from_spent_outpoints (Some tx) t (spent_outpoints s)),
              history_local := hl,
              txi := AList.delete t (txi s), txo := AList.delete t (txo s)\<rparr>)"
    using r by (simp add: remove_transaction_def assms Let_def sp1)
  then show ?thesis by (rule exI)
qed

lemma indexed_spenders_own:
  assumes A1: "distinct (map fst sp0)"
    and A2: "\<forall>(h, d) \<in> set sp0. \<forall>(n, x) \<in> set d. x \<noteq> t"
    and A3: "\<forall>(h, d) \<in> set sp0. h \<in> insert t (fst ` outpoints (inputs tx)) \<longrightarrow> d \<noteq> []"
    and A4: "\<forall>(h, n) \<in> outpoints (inputs tx). n \<notin> fst ` set (dict_get sp0 h [])"
    and nt: "dict_get sp0 t [] = []"
  shows "\<forall>(n, x) \<in> set (dict_get (set_inputs t (inputs tx) (touch_inputs (inputs tx) sp0)) t []).
           x = t"
proof -
  define K where "K = insert t (fst ` outpoints (inputs tx))"
  let ?OP = "outpoints (inputs tx)"
  let ?sp = "set_inputs t (inputs tx) (touch_inputs (inputs tx) sp0)"
  have kin: "fst ` ?OP \<subseteq> K" by (auto simp: K_def)
  have notin0: "(n, t) \<notin> set (dict_get sp0 h [])" for h n
  proof (cases "map_of sp0 h")
    case None
    then show ?thesis by (simp add: dict_get_def)
  next
    case (Some d)
    then have "(h, d) \<in> set sp0" by (rule map_of_SomeD)
    with A2 have "\<forall>(n, x) \<in> set d. x \<noteq> t" by blast
    with Some show ?thesis by (auto simp: dict_get_def)
  qed
  have s0: "strip K t sp0 = sp0"
    by (rule strip_id) (use A2 A3 in \<open>auto simp: K_def\<close>)
  have inv0: "sp_inv sp0 t K ?OP sp0"
    using A1 s0 notin0 by (simp add: sp_inv_def)
  have inv1: "sp_inv sp0 t K ?OP (touch_inputs (inputs tx) sp0)"
    by (rule touch_inputs_inv [OF inv0 kin])
  have "sp_inv sp0 t K ?OP ?sp \<and>
        (\<forall>(h, n) \<in> {} \<union> ?OP. (n, t) \<in> set (dict_get ?sp h []))"
    by (rule set_inputs_inv [OF inv1 kin _ A4]) simp_all
  then have "\<forall>h n x. (n, x) \<in> set (dict_get ?sp h []) \<longrightarrow>
                 x = t \<or> (n, x) \<in> set (dict_get sp0 h [])"
    by (simp add: sp_inv_def)
  then have "(n, x) \<in> set (dict_get ?sp t []) \<Longrightarrow> x = t" for n x
    using nt by fastforce
  then show ?thesis by blast
qed

lemma resolve_conflicts_none: "resolve_conflicts depth h [] s = (Inr True, s)"
  by (simp add: resolve_conflicts_def)

lemma index_transaction_isolated:
  assumes W: "\<forall>(n, x) \<in> set (dict_get (set_inputs t (inputs tx) (spent_outpoints s)) t []). x = t"
    and ti: "\<not> dict_in t (txi s)" and to: "\<not> dict_in t (txo s)"
    and tt: "\<not> dict_in t (transactions s)"
  shows "\<exists>s6 X Y. index_transaction p2pkh t tx cb s = s6 \<and>
           transactions s6 = transactions s @ [(t, tx)] \<and>
           txi s6 = txi s @ [(t, X)] \<and> txo s6 = txo s @ [(t, Y)] \<and>
           tx_fees s6 = tx_fees s \<and> history s6 = history s \<and>
           (spent_outpoints s6 = set_inputs t (inputs tx) (spent_outpoints s) \<or>
            spent_outpoints s6 = dd_touch t (set_inputs t (inputs tx) (spent_outpoints s)))"
proof -
  let ?s1 = "s\<lparr>txi := AList.update t [] (txi s)\<rparr>"
  have x1: "txi ?s1 = txi s @ [(t, [])]"
    using ti by (simp add: update_fresh)
  from add_input_fold [OF x1 ti, of "inputs tx"] obtain X' where
    s2: "fold (add_input t) (inputs tx) ?s1
           = ?s1\<lparr>spent_outpoints := set_inputs t (inputs tx) (spent_outpoints ?s1),
                  txi := txi s @ [(t, X')]\<rparr>" ..
  define s3 where "s3 = s\<lparr>spent_outpoints := set_inputs t (inputs tx) (spent_outpoints s),
                          txi := txi s @ [(t, X')], txo := txo s @ [(t, [])]\<rparr>"
  have f3: "out_frame t (txi s) (txo s) s3 s3"
    by (simp add: out_frame_def s3_def)
  have W3: "\<forall>(n, x) \<in> set (dict_get (spent_outpoints s3) t []). x = t"
    using W by (simp add: s3_def)
  define s4 where "s4 = fold (add_output p2pkh t cb) (enumerate 0 (outputs tx)) s3"
  from add_output_fold_frame [OF f3 W3 ti to]
  have f4: "out_frame t (txi s) (txo s) s3 s4" unfolding s4_def .
  from add_tx_to_local_history_only [of t s4] obtain hl where
    s5: "add_tx_to_local_history t s4 = s4\<lparr>history_local := hl\<rparr>" ..
  have up: "AList.update t tx (transactions s4) = transactions s @ [(t, tx)]"
    using f4 tt by (simp add: out_frame_def s3_def update_fresh)
  have idx: "index_transaction p2pkh t tx cb s
               = s4\<lparr>history_local := hl, transactions := transactions s @ [(t, tx)]\<rparr>"
    using s2 s5 up to
    by (simp add: index_transaction_def Let_def update_fresh s3_def [symmetric] s4_def [symmetric])
  from f4 obtain X Y where X: "txi s4 = txi s @ [(t, X)]" and Y: "txo s4 = txo s @ [(t, Y)]"
    by (auto simp: out_frame_def)
  have r: "tx_fees s4 = tx_fees s" "history s4 = history s"
    "spent_outpoints s4 = set_inputs t (inputs tx) (spent_outpoints s) \<or>
     spent_outpoints s4 = dd_touch t (set_inputs t (inputs tx) (spent_outpoints s))"
    using f4 by (simp_all add: out_frame_def s3_def)
  show ?thesis
    using idx X Y r by simp
qed

text \<open>
  Claim C6, as stated, fails on an empty submap of \<^verbatim>\<open>spent_outpoints\<close>. Indexing \<open>P\<close>,
  which pays the wallet, reads \<^verbatim>\<open>self.spent_outpoints[tx_hash].get(n)\<close> and so leaves the
  entry \<open>P: {}\<close>. \<open>F\<close> spends \<open>(P, 0)\<close>: none of its outpoints is recorded, nothing spends
  its outputs and it is not present. Adding \<open>F\<close> and removing it again pops the submap of
  \<open>P\<close>, which is empty once the spend of \<open>F\<close> is undone, so the serialized
  \<^verbatim>\<open>spent_outpoints\<close> has lost the entry \<open>P: {}\<close>.
\<close>

theorem add_then_remove_counterexample:
  "\<not> dict_in ''F'' (transactions funded_state) \<and>
   map_of (dict_get (spent_outpoints funded_state) ''P'' []) 0 = None \<and>
   dict_get (spent_outpoints funded_state) ''F'' [] = [] \<and>
   fst (add_transaction (\<lambda>x. x) 10 ''F'' spending_tx False funded_state) = Inr True \<and>
   fst (remove_transaction ''F''
          (snd (add_transaction (\<lambda>x. x) 10 ''F'' spending_tx False funded_state))) = Inr () \<and>
   blob_spent_outpoints (serialized funded_state) = [(''X'', [(0, ''P'')]), (''P'', [])] \<and>
   blob_spent_outpoints
     (serialized (snd (remove_transaction ''F''
        (snd (add_transaction (\<lambda>x. x) 10 ''F'' spending_tx False funded_state)))))
     = [(''X'', [(0, ''P'')])] \<and>
   serialized (snd (remove_transaction ''F''
        (snd (add_transaction (\<lambda>x. x) 10 ''F'' spending_tx False funded_state))))
     \<noteq> serialized funded_state"
  by code_simp

text \<open>
  Claim C6, amended. Let the call \<^verbatim>\<open>add_transaction(txid, T, allow_unrelated)\<close> meet the
  assertions of the method and pass the relatedness check, in a state where the keys of
  \<^verbatim>\<open>spent_outpoints\<close> are distinct and every recorded spender is a known transaction. If
  \<open>txid\<close> is a key of none of \<^verbatim>\<open>transactions\<close>, \<^verbatim>\<open>txi\<close>, \<^verbatim>\<open>txo\<close> and \<^verbatim>\<open>spent_outpoints\<close>,
  and for every input of \<open>T\<close> that is not coinbase the outpoint is not recorded in
  \<^verbatim>\<open>spent_outpoints\<close> and the submap of its \<^verbatim>\<open>prevout_hash\<close> is not an empty one, then
  \<^verbatim>\<open>add_transaction\<close> returns true, the following \<^verbatim>\<open>remove_transaction(txid)\<close> returns,
  and the serialized state (\<^verbatim>\<open>transactions\<close>, \<^verbatim>\<open>txi\<close>, \<^verbatim>\<open>txo\<close>, \<^verbatim>\<open>tx_fees\<close>,
  \<^verbatim>\<open>addr_history\<close>, \<^verbatim>\<open>spent_outpoints\<close>) is the one before the add.
\<close>

theorem add_then_remove_restores:
  assumes h1: "tx_hash \<noteq> []" and h2: "is_complete tx" and h3: "inputs tx \<noteq> []"
    and rel: "allow_unrelated \<or> has_mine_input s tx \<or> has_mine_output p2pkh s tx"
    and A1: "distinct (map fst (spent_outpoints s))"
    and sk: "spenders_known s"
    and tt: "\<not> dict_in tx_hash (transactions s)"
    and ti: "\<not> dict_in tx_hash (txi s)"
    and to: "\<not> dict_in tx_hash (txo s)"
    and ts: "\<not> dict_in tx_hash (spent_outpoints s)"
    and iso: "\<forall>txin \<in> set (inputs tx). in_type txin \<noteq> ''coinbase'' \<longrightarrow>
                prevout_n txin \<notin> fst ` set (dict_get (spent_outpoints s) (prevout_hash txin) []) \<and>
                (prevout_hash txin, []) \<notin> set (spent_outpoints s)"
  shows "\<exists>s1 s2. add_transaction p2pkh depth tx_hash tx allow_unrelated s = (Inr True, s1) \<and>
                 remove_transaction tx_hash s1 = (Inr (), s2) \<and>
                 serialized s2 = serialized s"
proof -
  let ?sp0 = "spent_outpoints s"
  let ?ins = "inputs tx"
  have A4: "\<forall>(h, n) \<in> outpoints ?ins. n \<notin> fst ` set (dict_get ?sp0 h [])"
    using iso by (auto simp: outpoints_def)
  have A3: "\<forall>(h, d) \<in> set ?sp0. h \<in> insert tx_hash (fst ` outpoints ?ins) \<longrightarrow> d \<noteq> []"
  proof (clarify)
    fix h assume hd: "(h, []) \<in> set ?sp0" and hk: "h \<in> insert tx_hash (fst ` outpoints ?ins)"
    from hd have "dict_in h ?sp0" by (simp add: rev_image_eqI)
    with ts have "h \<noteq> tx_hash" by auto
    with hk obtain n where "(h, n) \<in> outpoints ?ins" by auto
    then obtain i where "i \<in> set ?ins" "in_type i \<noteq> ''coinbase''" "prevout_hash i = h"
      by (auto simp: outpoints_def)
    with iso have "(h, []) \<notin> set ?sp0" by blast
    with hd show False by simp
  qed
  have A2: "\<forall>(h, d) \<in> set ?sp0. \<forall>(n, x) \<in> set d. x \<noteq> tx_hash"
  proof (clarify)
    fix h d n assume hd: "(h, d) \<in> set ?sp0" and nx: "(n, tx_hash) \<in> set d"
    from distinct_entry [OF A1 hd] have "dict_get ?sp0 h [] = d" by simp
    with nx have "tx_hash \<in> spenders ?sp0 h" by (auto simp: spenders_def rev_image_eqI)
    with sk have "dict_in tx_hash (transactions s)" by (simp add: spenders_known_def)
    with tt show False by simp
  qed
  have nt: "dict_get ?sp0 tx_hash [] = []"
    using ts by (simp add: dict_get_def map_of_eq_None_iff [THEN iffD2])
  define sA where "sA = s\<lparr>spent_outpoints := touch_inputs ?ins ?sp0\<rparr>"
  have cl: "conflicting_loop ?ins [] s = (Inr [], sA)"
    unfolding sA_def by (rule conflicting_loop_unspent [OF A4])
  have gc: "get_conflicting_transactions tx_hash tx s = (Inr [], sA)"
    by (simp add: get_conflicting_transactions_def cl)
  from h3 obtain txin0 rest where ins: "?ins = txin0 # rest" by (cases ?ins) auto
  define cb where "cb = (in_type txin0 = ''coinbase'')"
  have add: "add_transaction p2pkh depth tx_hash tx allow_unrelated s
               = (Inr True, index_transaction p2pkh tx_hash tx cb sA)"
    using h1 h2 rel
    by (simp add: add_transaction_def ins [symmetric] gc resolve_conflicts_none Let_def cb_def
        del: has_mine_input_def has_mine_output_def)
      (simp add: ins gc resolve_conflicts_none Let_def cb_def)
  have W: "\<forall>(n, x) \<in> set (dict_get (set_inputs tx_hash (inputs tx) (spent_outpoints sA)) tx_hash []).
             x = tx_hash"
    using indexed_spenders_own [OF A1 A2 A3 A4 nt] by (simp add: sA_def)
  have "\<not> dict_in tx_hash (txi sA)" "\<not> dict_in tx_hash (txo sA)"
    "\<not> dict_in tx_hash (transactions sA)"
    using ti to tt by (simp_all add: sA_def)
  from index_transaction_isolated [OF W this, of p2pkh cb]
  obtain s6 X Y where s6: "index_transaction p2pkh tx_hash tx cb sA = s6"
    and f6: "transactions s6 = transactions s @ [(tx_hash, tx)]"
      "txi s6 = txi s @ [(tx_hash, X)]" "txo s6 = txo s @ [(tx_hash, Y)]"
      "tx_fees s6 = tx_fees s" "history s6 = history s"
    and sp6: "spent_outpoints s6 = set_inputs tx_hash ?ins (touch_inputs ?ins ?sp0) \<or>
              spent_outpoints s6 = dd_touch tx_hash (set_inputs tx_hash ?ins (touch_inputs ?ins ?sp0))"
    by (auto simp: sA_def)
  have rt: "remove_from_spent_outpoints (Some tx) tx_hash (spent_outpoints s6) = (Inr (), ?sp0)"
    by (rule spent_outpoints_roundtrip [OF A1 A2 A3 A4 sp6])
  have mo: "map_of (transactions s6) tx_hash = Some tx"
    unfolding f6(1) using tt by (rule map_of_own)
  from remove_transaction_fields [OF mo] obtain hl where
    rm: "remove_transaction tx_hash s6 =
          (Inr (),
           s6\<lparr>transactions := AList.delete tx_hash (transactions s6),
              spent_outpoints :=
                snd (remove_from_spent_outpoints (Some tx) tx_hash (spent_outpoints s6)),
              history_local := hl,
              txi := AList.delete tx_hash (txi s6), txo := AList.delete tx_hash (txo s6)\<rparr>)" ..
  define s7 where
    "s7 = s6\<lparr>transactions := AList.delete tx_hash (transactions s6),
             spent_outpoints :=
               snd (remove_from_spent_outpoints (Some tx) tx_hash (spent_outpoints s6)),
             history_local := hl,
             txi := AList.delete tx_hash (txi s6), txo := AList.delete tx_hash (txo s6)\<rparr>"
  have d1: "AList.delete tx_hash (transactions s6) = transactions s"
    unfolding f6(1) using tt by (rule delete_own)
  have d2: "AList.delete tx_hash (txi s6) = txi s"
    unfolding f6(2) using ti by (rule delete_own)
  have d3: "AList.delete tx_hash (txo s6) = txo s"
    unfolding f6(3) using to by (rule delete_own)
  have ser: "serialized s7 = serialized s"
    by (simp add: serialized_def s7_def d1 d2 d3 rt f6(4,5))
  have "add_transaction p2pkh depth tx_hash tx allow_unrelated s = (Inr True, s6) \<and>
        remove_transaction tx_hash s6 = (Inr (), s7) \<and> serialized s7 = serialized s"
    using add s6 rm ser by (simp add: s7_def)
  then show ?thesis by (intro exI)
qed

theorem add_then_remove_restores_witness:
  "fst (add_transaction (\<lambda>x. x) 10 ''G'' isolated_tx False funded_state) = Inr True \<and>
   fst (remove_transaction ''G''
          (snd (add_transaction (\<lambda>x. x) 10 ''G'' isolated_tx False funded_state))) = Inr () \<and>
   serialized (snd (remove_transaction ''G''
        (snd (add_transaction (\<lambda>x. x) 10 ''G'' isolated_tx False funded_state))))
     = serialized funded_state"
proof -
  have p1: "''G'' \<noteq> []" by simp
  have p2: "is_complete isolated_tx" by (simp add: isolated_tx_def)
  have p3: "inputs isolated_tx \<noteq> []" by (simp add: isolated_tx_def)
  have p4: "False \<or> has_mine_input funded_state isolated_tx \<or>
            has_mine_output (\<lambda>x. x) funded_state isolated_tx"
    by code_simp
  have sp: "spent_outpoints funded_state = [(''X'', [(0, ''P'')]), (''P'', [])]"
    by (simp add: funded_state_eq)
  have tr: "transactions funded_state = [(''P'', funding_tx)]"
    by (simp add: funded_state_eq)
  have p5: "distinct (map fst (spent_outpoints funded_state))"
    by (simp add: sp)
  have p6: "spenders_known funded_state"
    by (simp add: spenders_known_def spenders_def sp tr dict_get_def)
  have p7: "\<not> dict_in ''G'' (transactions funded_state)" by (simp add: tr)
  have p8: "\<not> dict_in ''G'' (txi funded_state)" by (simp add: funded_state_eq)
  have p9: "\<not> dict_in ''G'' (txo funded_state)" by (simp add: funded_state_eq)
  have p10: "\<not> dict_in ''G'' (spent_outpoints funded_state)" by (simp add: sp)
  have p11: "\<forall>txin \<in> set (inputs isolated_tx). in_type txin \<noteq> ''coinbase'' \<longrightarrow>
               prevout_n txin \<notin> fst ` set (dict_get (spent_outpoints funded_state)
                                              (prevout_hash txin) []) \<and>
               (prevout_hash txin, []) \<notin> set (spent_outpoints funded_state)"
    by (simp add: isolated_tx_def sp dict_get_def)
  from add_then_remove_restores [OF p1 p2 p3 p4 p5 p6 p7 p8 p9 p10 p11, of 10]
  obtain s1 s2 where
    "add_transaction (\<lambda>x. x) 10 ''G'' isolated_tx False funded_state = (Inr True, s1)"
    "remove_transaction ''G'' s1 = (Inr (), s2)"
    "serialized s2 = serialized funded_state"
    by (elim exE conjE)
  then show ?thesis by simp
qed

subsection \<open>The history view\<close>

lemma bit_length_le: "i < 2 ^ k \<Longrightarrow> bit_length i \<le> k"
proof (induction k arbitrary: i)
  case 0
  then show ?case by (simp add: bit_length.simps)
next
  case (Suc k)
  show ?case
  proof (cases "i \<le> 0")
    case True
    then show ?thesis by (simp add: bit_length.simps)
  next
    case False
    from Suc.prems have "i div 2 < 2 ^ k" by simp
    from Suc.IH [OF this] False show ?thesis
      by (subst bit_length.simps) simp
  qed
qed

lemma bit_length_ge: "2 ^ k \<le> i \<Longrightarrow> k < bit_length i"
proof (induction k arbitrary: i)
  case 0
  then show ?case by (subst bit_length.simps) simp
next
  case (Suc k)
  then have "2 ^ k \<le> i div 2" by simp
  then have k: "k < bit_length (i div 2)" by (rule Suc.IH)
  have "(0 :: int) < 2 ^ Suc k" by simp
  from this Suc.prems have "0 < i" by (rule less_le_trans)
  with k show ?case
    by (subst bit_length.simps) simp
qed

lemma round_magnitude_small: "m < 2 ^ 53 \<Longrightarrow> round_magnitude m = m"
  using bit_length_le [of m 53] by (simp add: round_magnitude_def)

lemma round_magnitude_large:
  assumes "2 ^ 53 \<le> m"
  shows "2 ^ 53 \<le> round_magnitude m"
proof (cases "bit_length m \<le> 53")
  case True
  with assms show ?thesis by (simp add: round_magnitude_def)
next
  case False
  define e where "e = bit_length m - 53"
  define q where "q = m div 2 ^ e"
  from False have e: "0 < e" and bl: "bit_length m = e + 53" by (simp_all add: e_def)
  have "\<not> m < 2 ^ (e + 52)"
  proof
    assume "m < 2 ^ (e + 52)"
    from bit_length_le [OF this] bl show False by simp
  qed
  then have "2 ^ 52 * 2 ^ e \<le> m" by (simp add: power_add mult.commute)
  then have "(2 ^ 52 * 2 ^ e) div 2 ^ e \<le> m div (2 :: int) ^ e"
    by (rule zdiv_mono1) simp
  then have q52: "(2 :: int) ^ 52 \<le> q"
    unfolding q_def by simp
  have "(2 :: int) ^ 1 \<le> 2 ^ e" by (rule power_increasing) (use e in simp_all)
  then have e1: "(2 :: int) \<le> 2 ^ e" by simp
  have "(2 :: int) ^ 53 = 2 ^ 52 * 2" by simp
  also have "\<dots> \<le> q * 2 ^ e" using q52 e1 by (intro mult_mono) simp_all
  finally have a: "2 ^ 53 \<le> q * 2 ^ e" .
  have "q * 2 ^ e \<le> (q + 1) * 2 ^ e" by (simp add: distrib_right)
  with a have b: "2 ^ 53 \<le> (q + 1) * 2 ^ e" by (rule order_trans)
  from False a b show ?thesis
    by (auto simp: round_magnitude_def Let_def e_def [symmetric] q_def [symmetric])
qed

lemma round_magnitude_lower:
  assumes "n \<le> m" and "n < 2 ^ 53"
  shows "n \<le> round_magnitude m"
proof (cases "m < 2 ^ 53")
  case True
  with assms show ?thesis by (simp add: round_magnitude_small)
next
  case False
  with round_magnitude_large [of m] assms show ?thesis by simp
qed

lemma float_of_int_nonpos:
  assumes "float_of_int h = Inr f" and "h \<le> 0"
  shows "f \<le> 0"
proof -
  from assms(1) have f: "f = round_double h"
    by (simp add: float_of_int_def Let_def split: if_splits)
  show ?thesis
  proof (cases "h < 0")
    case True
    have "0 \<le> round_magnitude (- h)"
      by (rule round_magnitude_lower) (use True in simp_all)
    with True f show ?thesis by (simp add: round_double_def)
  next
    case False
    with assms(2) have "h = 0" by simp
    with f show ?thesis by (simp add: round_double_def round_magnitude_small)
  qed
qed

lemma float_of_int_neg:
  assumes "float_of_int h = Inr f" and "h < 0"
  shows "f \<le> - 1"
proof -
  from assms(1) have f: "f = round_double h"
    by (simp add: float_of_int_def Let_def split: if_splits)
  have "1 \<le> round_magnitude (- h)"
    by (rule round_magnitude_lower) (use assms(2) in simp_all)
  with assms(2) f show ?thesis by (simp add: round_double_def)
qed

lemma float_sub_lower:
  assumes "n \<le> a - b" and "0 \<le> n" and "n < 2 ^ 53"
  shows "n \<le> float_sub a b"
proof -
  from assms have "\<not> a - b < 0" by simp
  then have "float_sub a b = round_magnitude (a - b)"
    by (simp add: float_sub_def round_double_def)
  with round_magnitude_lower [OF assms(1,3)] show ?thesis by simp
qed

lemma float_of_int_exact:
  assumes "- (2 ^ 53) < h" and "h \<le> 0"
  shows "float_of_int h = Inr h"
proof -
  have "round_magnitude (- h) = - h"
    by (rule round_magnitude_small) (use assms in simp)
  moreover have "round_magnitude 0 = 0" by (simp add: round_magnitude_small)
  ultimately have r: "round_double h = h"
    using assms(2) by (cases "h < 0") (simp_all add: round_double_def)
  have "\<bar>h\<bar> < 2 ^ 53" using assms by simp
  also have "(2 :: int) ^ 53 \<le> 2 ^ 1024" by (rule power_increasing) simp_all
  finally have "\<not> 2 ^ 1024 \<le> \<bar>h\<bar>" by simp
  with r show ?thesis by (simp add: float_of_int_def Let_def)
qed

lemma get_txpos_verified:
  assumes "get_txpos s t = Inr k" and "dict_in t (verified_tx s)"
  shows "fst k = height (get_tx_height s t)" and "snd k = txpos (get_tx_height s t)"
proof -
  from assms(2) obtain info where "map_of (verified_tx s) t = Some info"
    by (cases "map_of (verified_tx s) t") (auto simp: map_of_eq_None_iff)
  with assms(1) show "fst k = height (get_tx_height s t)" "snd k = txpos (get_tx_height s t)"
    by (auto simp: get_txpos_def get_tx_height_def)
qed

lemma get_txpos_unverified:
  assumes k: "get_txpos s t = Inr k" and nv: "\<not> dict_in t (verified_tx s)"
  shows "0 < height (get_tx_height s t) \<Longrightarrow> fst k = height (get_tx_height s t)"
    and "height (get_tx_height s t) \<le> 0 \<Longrightarrow> 1000000000 \<le> fst k"
    and "height (get_tx_height s t) < 0 \<Longrightarrow> 1000000001 \<le> fst k"
    and "height (get_tx_height s t) = 0 \<Longrightarrow> fst k = 1000000000"
proof -
  from nv have v: "map_of (verified_tx s) t = None"
    by (simp add: map_of_eq_None_iff)
  show "0 < height (get_tx_height s t) \<Longrightarrow> fst k = height (get_tx_height s t)"
    using k v by (cases "map_of (unverified_tx s) t")
      (auto simp: get_txpos_def get_tx_height_def TX_HEIGHT_LOCAL_def split: if_splits sum.splits)
  show "height (get_tx_height s t) \<le> 0 \<Longrightarrow> 1000000000 \<le> fst k"
  proof (cases "map_of (unverified_tx s) t")
    case None
    with k v show ?thesis by (auto simp: get_txpos_def)
  next
    case (Some h)
    assume "height (get_tx_height s t) \<le> 0"
    with Some v have h: "h \<le> 0" by (simp add: get_tx_height_def)
    with k v Some obtain f where f: "float_of_int h = Inr f" and kk: "k = (float_sub 1000000000 f, Some 0)"
      by (auto simp: get_txpos_def split: sum.splits)
    from float_of_int_nonpos [OF f h] have "1000000000 \<le> 1000000000 - f" by simp
    then have "1000000000 \<le> float_sub 1000000000 f"
      by (rule float_sub_lower) simp_all
    with kk show ?thesis by simp
  qed
  show "height (get_tx_height s t) < 0 \<Longrightarrow> 1000000001 \<le> fst k"
  proof (cases "map_of (unverified_tx s) t")
    case None
    with k v show ?thesis by (auto simp: get_txpos_def)
  next
    case (Some h)
    assume "height (get_tx_height s t) < 0"
    with Some v have h: "h < 0" by (simp add: get_tx_height_def)
    with k v Some obtain f where f: "float_of_int h = Inr f" and kk: "k = (float_sub 1000000000 f, Some 0)"
      by (auto simp: get_txpos_def split: sum.splits)
    from float_of_int_neg [OF f h] have "1000000001 \<le> 1000000000 - f" by simp
    then have "1000000001 \<le> float_sub 1000000000 f"
      by (rule float_sub_lower) simp_all
    with kk show ?thesis by simp
  qed
  show "height (get_tx_height s t) = 0 \<Longrightarrow> fst k = 1000000000"
  proof (cases "map_of (unverified_tx s) t")
    case None
    assume "height (get_tx_height s t) = 0"
    with None v show ?thesis by (simp add: get_tx_height_def TX_HEIGHT_LOCAL_def)
  next
    case (Some h)
    assume "height (get_tx_height s t) = 0"
    with Some v have h: "h = 0" by (simp add: get_tx_height_def)
    have "float_of_int 0 = Inr 0" by (rule float_of_int_exact) simp_all
    moreover have "float_sub 1000000000 0 = 1000000000"
      by (simp add: float_sub_def round_double_def round_magnitude_small)
    ultimately show ?thesis using k v Some h by (auto simp: get_txpos_def)
  qed
qed

lemma key_order_may_precede:
  assumes k1: "get_txpos s t1 = Inr k1" and k2: "get_txpos s t2 = Inr k2" and le: "k1 \<le> k2"
  shows "may_precede s t1 t2"
proof -
  let ?h1 = "height (get_tx_height s t1)" and ?h2 = "height (get_tx_height s t2)"
  let ?v1 = "dict_in t1 (verified_tx s)" and ?v2 = "dict_in t2 (verified_tx s)"
  from le have f: "fst k1 \<le> fst k2" by (auto simp: less_eq_prod_def)
  from le have sn: "fst k1 = fst k2 \<Longrightarrow> snd k1 \<le> snd k2" by (auto simp: less_eq_prod_def)
  have pos: "0 < height (get_tx_height s t) \<Longrightarrow> get_txpos s t = Inr k \<Longrightarrow>
               fst k = height (get_tx_height s t)" for t k
    using get_txpos_verified(1) [of s t k] get_txpos_unverified(1) [of s t k] by blast
  have c1: "0 < ?h1 \<and> 0 < ?h2 \<longrightarrow> ?h1 \<le> ?h2"
    using pos [of t1 k1] pos [of t2 k2] k1 k2 f by auto
  have c2: "?v1 \<and> ?v2 \<and> ?h1 = ?h2 \<longrightarrow>
              (case (txpos (get_tx_height s t1), txpos (get_tx_height s t2)) of
                 (Some p1, Some p2) \<Rightarrow> p1 \<le> p2 | _ \<Rightarrow> True)"
  proof (intro impI, elim conjE)
    assume v: ?v1 ?v2 and h: "?h1 = ?h2"
    from get_txpos_verified [OF k1 v(1)] get_txpos_verified [OF k2 v(2)] h sn
    have "txpos (get_tx_height s t1) \<le> txpos (get_tx_height s t2)" by simp
    then show "case (txpos (get_tx_height s t1), txpos (get_tx_height s t2)) of
                 (Some p1, Some p2) \<Rightarrow> p1 \<le> p2 | _ \<Rightarrow> True"
      by (auto split: option.splits)
  qed
  have c3: "\<not> ?v1 \<and> ?h1 \<le> 0 \<longrightarrow> \<not> (0 < ?h2 \<and> ?h2 < 1000000000)"
  proof (intro impI notI, elim conjE)
    assume "\<not> ?v1" "?h1 \<le> 0" "0 < ?h2" "?h2 < 1000000000"
    from get_txpos_unverified(2) [OF k1 this(1,2)] pos [OF this(3) k2] f this(4)
    show False by simp
  qed
  have c4: "\<not> ?v1 \<and> ?h1 < 0 \<longrightarrow> \<not> (\<not> ?v2 \<and> ?h2 = 0)"
  proof (intro impI notI, elim conjE)
    assume "\<not> ?v1" "?h1 < 0" "\<not> ?v2" "?h2 = 0"
    from get_txpos_unverified(3) [OF k1 this(1,2)] get_txpos_unverified(4) [OF k2 this(3,4)] f
    show False by simp
  qed
  from c1 c2 c3 c4 show ?thesis
    unfolding may_precede_def Let_def by (intro conjI)
qed

lemma fold_err_invariant:
  assumes "fold_err f xs a = Inr b" and "P a"
    and "\<And>x a a'. x \<in> set xs \<Longrightarrow> P a \<Longrightarrow> f x a = Inr a' \<Longrightarrow> P a'"
  shows "P b"
  using assms
proof (induction xs arbitrary: a)
  case Nil
  then show ?case by simp
next
  case (Cons x xs)
  from Cons.prems(1) obtain a1 where s: "f x a = Inr a1" and r: "fold_err f xs a1 = Inr b"
    by (cases "f x a") simp_all
  have "P a1" by (rule Cons.prems(3) [OF _ Cons.prems(2) s]) simp
  from r this show ?case
    by (rule Cons.IH) (rule Cons.prems(3), simp_all)
qed

lemma fold_err_total:
  assumes "P a"
    and "\<And>x a. x \<in> set xs \<Longrightarrow> P a \<Longrightarrow> \<exists>a'. f x a = Inr a' \<and> P a'"
  shows "\<exists>b. fold_err f xs a = Inr b \<and> P b"
  using assms
proof (induction xs arbitrary: a)
  case Nil
  then show ?case by simp
next
  case (Cons x xs)
  have "\<exists>a'. f x a = Inr a' \<and> P a'" by (rule Cons.prems(2)) (simp, rule Cons.prems(1))
  then obtain a1 where s: "f x a = Inr a1" and p: "P a1" by blast
  have "\<exists>b. fold_err f xs a1 = Inr b \<and> P b"
    by (rule Cons.IH [OF p]) (rule Cons.prems(2), simp_all)
  with s show ?case by simp
qed

lemma collect_keys_zip:
  "collect_keys (map key xs) = Inr keys \<Longrightarrow>
   length keys = length xs \<and> (\<forall>(k, x) \<in> set (zip keys xs). key x = Inr k)"
proof (induction xs arbitrary: keys)
  case Nil
  then show ?case by simp
next
  case (Cons x xs)
  from Cons.prems obtain k ks where k: "key x = Inr k" and ks: "collect_keys (map key xs) = Inr ks"
    and keys: "keys = k # ks"
    by (auto split: sum.splits)
  from Cons.IH [OF ks] k keys show ?case by simp
qed

lemma collect_keys_total:
  "(\<And>x. x \<in> set xs \<Longrightarrow> \<exists>k. key x = Inr k \<and> P k) \<Longrightarrow>
   \<exists>keys. collect_keys (map key xs) = Inr keys \<and> (\<forall>k \<in> set keys. P k)"
proof (induction xs)
  case Nil
  then show ?case by simp
next
  case (Cons x xs)
  have "\<exists>k. key x = Inr k \<and> P k" by (rule Cons.prems) simp
  then obtain k where k: "key x = Inr k" "P k" by blast
  have "\<exists>keys. collect_keys (map key xs) = Inr keys \<and> (\<forall>k \<in> set keys. P k)"
    by (rule Cons.IH) (rule Cons.prems, simp)
  then obtain ks where "collect_keys (map key xs) = Inr ks" "\<forall>k \<in> set ks. P k" by blast
  with k show ?case by simp
qed

lemma all_comparable_positions:
  "(\<And>k. k \<in> set ks \<Longrightarrow> snd k \<noteq> None) \<Longrightarrow> all_comparable ks"
  by (induction ks) (auto simp: list_all_iff comparable_def)

lemma sort_reverse_result:
  assumes "sort_reverse key xs = Inr ys"
  shows "\<exists>S. rev ys = map snd S \<and> sorted (map fst S) \<and>
             (\<forall>(k, x) \<in> set S. key x = Inr k) \<and> set ys = set xs \<and> length ys = length xs"
proof -
  from assms obtain keys where ck: "collect_keys (map key xs) = Inr keys"
    and ys: "ys = map snd (rev (sort_key fst (rev (zip keys xs))))"
    by (auto simp: sort_reverse_def split: sum.splits if_splits)
  let ?S = "sort_key fst (rev (zip keys xs))"
  from collect_keys_zip [OF ck] have len: "length keys = length xs"
    and kz: "\<forall>(k, x) \<in> set (zip keys xs). key x = Inr k" by simp_all
  have 1: "rev ys = map snd ?S" by (simp add: ys rev_map)
  have 2: "sorted (map fst ?S)" by (rule sorted_sort_key)
  have 3: "\<forall>(k, x) \<in> set ?S. key x = Inr k" using kz by simp
  have "set ys = snd ` set (zip keys xs)" by (simp add: ys)
  also have "\<dots> = set (map snd (zip keys xs))" by simp
  also have "\<dots> = set xs" using len by simp
  finally have 4: "set ys = set xs" .
  have 5: "length ys = length xs" using len by (simp add: ys)
  from 1 2 3 4 5 show ?thesis by blast
qed

lemma sort_reverse_chronological:
  assumes "sort_reverse (\<lambda>x. get_txpos s (fst x)) xs = Inr ys"
  shows "chronological s (map fst (rev ys))"
proof -
  from sort_reverse_result [OF assms] obtain S where
    r: "rev ys = map snd S" and so: "sorted (map fst S)"
    and ks: "\<forall>(k, x) \<in> set S. get_txpos s (fst x) = Inr k"
    by blast
  from ks have ks': "\<forall>x \<in> set S. get_txpos s (fst (snd x)) = Inr (fst x)"
    by (simp add: case_prod_unfold)
  from so have "sorted_wrt (\<lambda>a b. fst a \<le> fst b) S"
    by (simp add: sorted_wrt_map)
  then have "sorted_wrt (\<lambda>a b. may_precede s (fst (snd a)) (fst (snd b))) S"
  proof (rule sorted_wrt_mono_rel [rotated])
    fix a b assume "a \<in> set S" "b \<in> set S" "fst a \<le> fst b"
    with ks' have "get_txpos s (fst (snd a)) = Inr (fst a)" "get_txpos s (fst (snd b)) = Inr (fst b)"
      by simp_all
    from key_order_may_precede [OF this \<open>fst a \<le> fst b\<close>]
    show "may_precede s (fst (snd a)) (fst (snd b))" .
  qed
  then have "sorted_wrt (may_precede s) (map (\<lambda>a. fst (snd a)) S)"
    by (simp add: sorted_wrt_map)
  moreover have "map fst (rev ys) = map (\<lambda>a. fst (snd a)) S"
    by (simp add: r)
  ultimately show ?thesis by (simp add: chronological_def)
qed

lemma delta_sum_append: "delta_sum (xs @ ys) = delta_sum xs + delta_sum ys"
  by (simp add: delta_sum_def)

lemma delta_sum_rev: "delta_sum (rev xs) = delta_sum xs"
  by (simp add: delta_sum_def rev_map [symmetric])

lemma delta_sum_row:
  "delta_sum [(t, st, Some d, b, od, ob)] = d"
  by (simp add: delta_sum_def row_delta_def)

lemma add_balance_step:
  assumes "add_balance D (t, st, Some d, od) (h2, Some b1, ob1) = Inr r"
  shows "\<exists>ob2. r = (h2 @ [(t, st, Some d, Some b1, od, ob1)], Some (b1 - d), ob2)"
  using assms
  by (auto simp: add_balance_def Let_def split: sum.splits bool.splits omni_num.splits)

lemma walk_invariant:
  assumes "fold_err (add_balance D) hist (h2, Some b1, ob1) = Inr (h2', b', ob')"
    and "\<forall>it \<in> set hist. fst (snd (snd it)) \<noteq> None"
    and "b1 = b0 - delta_sum h2"
    and "\<forall>k < length h2. row_balance (h2 ! k) = Some (b0 - delta_sum (take k h2))"
  shows "b' = Some (b0 - delta_sum h2') \<and>
         (\<forall>k < length h2'. row_balance (h2' ! k) = Some (b0 - delta_sum (take k h2'))) \<and>
         map fst h2' = map fst h2 @ map fst hist"
  using assms
proof (induction hist arbitrary: h2 b1 ob1)
  case Nil
  then show ?case by auto
next
  case (Cons it hist)
  obtain t st dl od where it: "it = (t, st, dl, od)" by (cases it)
  with Cons.prems(2) obtain d where d: "dl = Some d" by (cases dl) auto
  from Cons.prems(1) obtain r where
    s: "add_balance D (t, st, Some d, od) (h2, Some b1, ob1) = Inr r"
    and f: "fold_err (add_balance D) hist r = Inr (h2', b', ob')"
    by (cases "add_balance D (t, st, Some d, od) (h2, Some b1, ob1)") (simp_all add: it d)
  from add_balance_step [OF s] obtain ob2 where
    r: "r = (h2 @ [(t, st, Some d, Some b1, od, ob1)], Some (b1 - d), ob2)" ..
  let ?row = "(t, st, Some d, Some b1, od, ob1)"
  let ?h2a = "h2 @ [?row]"
  have p2: "\<forall>it \<in> set hist. fst (snd (snd it)) \<noteq> None" using Cons.prems(2) by simp
  have p3: "b1 - d = b0 - delta_sum ?h2a"
    using Cons.prems(3) by (simp add: delta_sum_append delta_sum_row)
  have p4: "\<forall>k < length ?h2a. row_balance (?h2a ! k) = Some (b0 - delta_sum (take k ?h2a))"
  proof (intro allI impI)
    fix k assume k: "k < length ?h2a"
    show "row_balance (?h2a ! k) = Some (b0 - delta_sum (take k ?h2a))"
    proof (cases "k < length h2")
      case True
      with Cons.prems(4) show ?thesis by (simp add: nth_append)
    next
      case False
      with k have "k = length h2" by simp
      with Cons.prems(3) show ?thesis by (simp add: nth_append row_balance_def)
    qed
  qed
  from Cons.IH [OF f [unfolded r] p2 p3 p4] it show ?case by simp
qed

lemma running_balance_rev:
  assumes "\<forall>k < length h2. row_balance (h2 ! k) = Some (b0 - delta_sum (take k h2))"
    and "b0 = delta_sum h2"
  shows "\<forall>k < length h2. row_balance (rev h2 ! k) = Some (delta_sum (take (Suc k) (rev h2)))"
proof (intro allI impI)
  fix k assume k: "k < length h2"
  define j where "j = length h2 - Suc k"
  from k have j: "j < length h2" by (simp add: j_def)
  have "rev h2 ! k = h2 ! j" using k by (simp add: rev_nth j_def)
  moreover from assms(1) j have "row_balance (h2 ! j) = Some (b0 - delta_sum (take j h2))"
    by simp
  moreover have "delta_sum h2 = delta_sum (take j h2) + delta_sum (drop j h2)"
    by (simp add: delta_sum_append [symmetric])
  moreover have "take (Suc k) (rev h2) = rev (drop j h2)"
    by (simp add: take_rev j_def)
  ultimately show "row_balance (rev h2 ! k) = Some (delta_sum (take (Suc k) (rev h2)))"
    using assms(2) by (simp add: delta_sum_rev)
qed

lemma accumulate_delta_some:
  assumes "accumulate_delta D ov s addr item (txd, od) = Inr (txd', od')"
    and "\<forall>(t, d) \<in> set txd. d \<noteq> None"
  shows "\<forall>(t, d) \<in> set txd'. d \<noteq> None"
proof -
  obtain tx_hash ht where item: "item = (tx_hash, ht)" by (cases item)
  have "dict_get txd tx_hash (Some 0) \<noteq> None"
  proof (cases "map_of txd tx_hash")
    case None
    then show ?thesis by (simp add: dict_get_def)
  next
    case (Some v)
    then have "(tx_hash, v) \<in> set txd" by (rule map_of_SomeD)
    with assms(2) Some show ?thesis by (auto simp: dict_get_def)
  qed
  then obtain c where c: "dict_get txd tx_hash (Some 0) = Some c" by auto
  from assms(1) have "txd' = AList.update tx_hash (Some (c + get_tx_delta s tx_hash addr)) txd"
    by (auto simp: accumulate_delta_def item c Let_def
        split: sum.splits bool.splits omni_num.splits option.splits)
  with set_update_subset [of tx_hash "Some (c + get_tx_delta s tx_hash addr)" txd] assms(2)
  show ?thesis by auto
qed

lemma collect_deltas_some:
  fixes D :: "('j, 'd) decimal_ops"
  assumes "collect_deltas D ov s domain = Inr (txd, od)"
  shows "\<forall>(t, d) \<in> set txd. d \<noteq> None"
proof -
  let ?P = "\<lambda>acc :: (txid \<times> int option) list \<times> (txid \<times> 'd) list.
              \<forall>(t, d) \<in> set (fst acc). d \<noteq> None"
  have "?P (txd, od)"
  proof (rule fold_err_invariant [where P = ?P, OF assms [unfolded collect_deltas_def]])
    show "?P ([], [])" by simp
  next
    fix addr a a'
    assume pa: "?P a"
      and f: "fold_err (accumulate_delta D ov s addr) (get_address_history s addr) a = Inr a'"
    show "?P a'"
    proof (rule fold_err_invariant [where P = ?P, OF f pa])
      fix item b b'
      assume pb: "?P b" and st: "accumulate_delta D ov s addr item b = Inr b'"
      from accumulate_delta_some [of D ov s addr item "fst b" "snd b" "fst b'" "snd b'"] st pb
      show "?P b'" by simp
    qed
  qed
  then show ?thesis by simp
qed

lemma history_items_some:
  assumes "\<forall>(t, d) \<in> set txd. d \<noteq> None"
  shows "\<forall>it \<in> set (history_items s txd od). fst (snd (snd it)) \<noteq> None"
  using assms by (auto simp: history_items_def)

lemma history_steps_result:
  fixes D :: "('a, 'b) decimal_ops"
  assumes "history_steps D ov s domain = Inr (h2, balance)"
  shows "balance = Some (domain_balance s domain - delta_sum h2)"
    and "\<forall>k < length h2. row_balance (h2 ! k)
           = Some (domain_balance s domain - delta_sum (take k h2))"
    and "chronological s (map fst (rev h2))"
proof -
  from assms obtain txd od where c: "collect_deltas D ov s domain = Inr (txd, od)"
    by (auto simp: history_steps_def split: sum.splits)
  from assms c obtain hist where
    so: "sort_reverse (\<lambda>x. get_txpos s (fst x)) (history_items s txd od) = Inr hist"
    by (auto simp: history_steps_def split: sum.splits)
  obtain cc u x where gb: "get_balance s domain = (cc, u, x)" by (cases "get_balance s domain")
  define ob0 where "ob0 = (if omni ov then Dec (omni_addr_balance D ov domain) else IntZero)"
  from assms c so gb obtain ob where
    w: "fold_err (add_balance D) hist ([], Some (cc + u + x), ob0) = Inr (h2, balance, ob)"
    by (auto simp: history_steps_def Let_def ob0_def split: sum.splits)
  have b0: "domain_balance s domain = cc + u + x" by (simp add: domain_balance_def gb)
  from sort_reverse_result [OF so] have "set hist = set (history_items s txd od)" by blast
  with history_items_some [OF collect_deltas_some [OF c], of s od]
  have some: "\<forall>it \<in> set hist. fst (snd (snd it)) \<noteq> None" by simp
  have i3: "cc + u + x = domain_balance s domain - delta_sum ([] :: 'b history_row list)"
    by (simp add: b0 delta_sum_def)
  have i4: "\<forall>k < length ([] :: 'b history_row list).
              row_balance ([] ! k) = Some (domain_balance s domain - delta_sum (take k []))"
    by simp
  from walk_invariant [OF w some i3 i4]
  have "balance = Some (domain_balance s domain - delta_sum h2) \<and>
        (\<forall>k < length h2. row_balance (h2 ! k)
           = Some (domain_balance s domain - delta_sum (take k h2))) \<and>
        map fst h2 = map fst hist"
    by simp
  then have r1: "balance = Some (domain_balance s domain - delta_sum h2)"
    and r2: "\<forall>k < length h2. row_balance (h2 ! k)
           = Some (domain_balance s domain - delta_sum (take k h2))"
    and m: "map fst h2 = map fst hist"
    by simp_all
  from m have "map fst (rev h2) = map fst (rev hist)" by (simp only: rev_map [symmetric])
  with sort_reverse_chronological [OF so]
  have r3: "chronological s (map fst (rev h2))" by simp
  from r1 show "balance = Some (domain_balance s domain - delta_sum h2)" .
  from r2 show "\<forall>k < length h2. row_balance (h2 ! k)
           = Some (domain_balance s domain - delta_sum (take k h2))" .
  from r3 show "chronological s (map fst (rev h2))" .
qed

lemma get_omni_delta_no_data:
  "omni_tx ov = Some [] \<Longrightarrow> get_omni_delta D ov t a = Inr IntZero"
  by (simp add: get_omni_delta_def)

lemma accumulate_delta_no_data:
  assumes "omni_tx ov = Some []"
  shows "\<exists>txd'. accumulate_delta D ov s addr item (txd, od) = Inr (txd', od)"
proof -
  obtain tx_hash ht where item: "item = (tx_hash, ht)" by (cases item)
  show ?thesis
    by (cases "dict_get txd tx_hash (Some 0)")
       (simp_all add: accumulate_delta_def item Let_def get_omni_delta_no_data [OF assms]
          omni_ne_zero_def)
qed

lemma collect_deltas_no_data:
  fixes D :: "('j, 'd) decimal_ops"
  assumes "omni_tx ov = Some []"
  shows "\<exists>txd. collect_deltas D ov s domain = Inr (txd, [])"
proof -
  let ?P = "\<lambda>acc :: (txid \<times> int option) list \<times> (txid \<times> 'd) list. snd acc = []"
  have "\<exists>b. fold_err (\<lambda>addr. fold_err (accumulate_delta D ov s addr) (get_address_history s addr))
              domain ([], []) = Inr b \<and> ?P b"
  proof (rule fold_err_total [where P = ?P])
    show "?P ([], [])" by simp
  next
    fix addr a assume pa: "?P a"
    show "\<exists>a'. fold_err (accumulate_delta D ov s addr) (get_address_history s addr) a = Inr a'
               \<and> ?P a'"
    proof (rule fold_err_total [where P = ?P, OF pa])
      fix item b assume pb: "?P b"
      from accumulate_delta_no_data [OF assms, of D s addr item "fst b" "snd b"]
      obtain txd' where "accumulate_delta D ov s addr item b = Inr (txd', snd b)" by auto
      with pb show "\<exists>b'. accumulate_delta D ov s addr item b = Inr b' \<and> ?P b'" by simp
    qed
  qed
  then obtain b where "collect_deltas D ov s domain = Inr b" and "snd b = []"
    by (auto simp: collect_deltas_def)
  then have "collect_deltas D ov s domain = Inr (fst b, [])" by (cases b) simp
  then show ?thesis by (rule exI)
qed

lemma get_txpos_total:
  assumes pos: "\<forall>(t, info) \<in> set (verified_tx s). txpos info \<noteq> None"
    and hts: "\<forall>(t, h) \<in> set (unverified_tx s). - (2 ^ 53) < h"
  shows "\<exists>k. get_txpos s t = Inr k \<and> snd k \<noteq> None"
proof (cases "map_of (verified_tx s) t")
  case (Some info)
  then have "(t, info) \<in> set (verified_tx s)" by (rule map_of_SomeD)
  with pos have "txpos info \<noteq> None" by auto
  with Some show ?thesis by (simp add: get_txpos_def)
next
  case None
  show ?thesis
  proof (cases "map_of (unverified_tx s) t")
    case n: None
    with None show ?thesis by (simp add: get_txpos_def)
  next
    case (Some h)
    then have "(t, h) \<in> set (unverified_tx s)" by (rule map_of_SomeD)
    with hts have h: "- (2 ^ 53) < h" by auto
    show ?thesis
    proof (cases "0 < h")
      case True
      with None Some show ?thesis by (simp add: get_txpos_def)
    next
      case False
      then have "h \<le> 0" by simp
      from float_of_int_exact [OF h this] None Some False show ?thesis
        by (simp add: get_txpos_def)
    qed
  qed
qed

lemma add_balance_no_data:
  "\<exists>r. add_balance D (t, st, d, IntZero) acc = Inr r"
  by (cases acc) (simp add: add_balance_def Let_def omni_ne_zero_def)

lemma history_steps_total:
  fixes D :: "('j, 'd) decimal_ops"
  assumes ov: "omni_tx ov = Some []"
    and pos: "\<forall>(t, info) \<in> set (verified_tx s). txpos info \<noteq> None"
    and hts: "\<forall>(t, h) \<in> set (unverified_tx s). - (2 ^ 53) < h"
  shows "\<exists>h2 balance. history_steps D ov s domain = Inr (h2, balance)"
proof -
  from collect_deltas_no_data [OF ov, of D s domain] obtain txd where
    c: "collect_deltas D ov s domain = Inr (txd, ([] :: (txid \<times> 'd) list))" ..
  let ?items = "history_items s txd ([] :: (txid \<times> 'd) list)"
  let ?key = "\<lambda>x :: 'd history_item. get_txpos s (fst x)"
  have "\<exists>keys. collect_keys (map ?key ?items) = Inr keys \<and> (\<forall>k \<in> set keys. snd k \<noteq> None)"
    by (rule collect_keys_total) (rule get_txpos_total [OF pos hts])
  then obtain keys where ck: "collect_keys (map ?key ?items) = Inr keys"
    and kp: "\<forall>k \<in> set keys. snd k \<noteq> None" by blast
  have ac: "all_comparable keys"
    by (rule all_comparable_positions) (use kp in simp)
  define hist where "hist = map snd (rev (sort_key fst (rev (zip keys ?items))))"
  have so: "sort_reverse ?key ?items = Inr hist"
    by (simp add: sort_reverse_def ck ac hist_def)
  from sort_reverse_result [OF so] have sh: "set hist = set ?items" by blast
  have z: "\<forall>it \<in> set hist. snd (snd (snd it)) = IntZero"
    unfolding sh by (auto simp: history_items_def)
  obtain cc u x where gb: "get_balance s domain = (cc, u, x)" by (cases "get_balance s domain")
  define ob0 where "ob0 = (if omni ov then Dec (omni_addr_balance D ov domain) else IntZero)"
  have "\<exists>b. fold_err (add_balance D) hist ([], Some (cc + u + x), ob0) = Inr b \<and> True"
  proof (rule fold_err_total [where P = "\<lambda>acc. True"])
    fix it :: "'d history_item" and acc
    assume "it \<in> set hist"
    with z obtain t st d where "it = (t, st, d, IntZero)"
      by (cases it) auto
    with add_balance_no_data [of D t st d acc]
    show "\<exists>a'. add_balance D it acc = Inr a' \<and> True" by simp
  qed simp
  then obtain b where w: "fold_err (add_balance D) hist ([], Some (cc + u + x), ob0) = Inr b"
    by blast
  obtain h2 balance ob where b: "b = (h2, balance, ob)" by (cases b)
  have "history_steps D ov s domain = Inr (h2, balance)"
    using c so gb w b by (simp add: history_steps_def Let_def ob0_def)
  then show ?thesis by blast
qed

text \<open>Where \<^verbatim>\<open>get_history\<close> raises. With two transactions verified at the same height,
  one of them without a position, the sort compares \<^verbatim>\<open>None\<close> with a number.\<close>

lemma get_history_unpositioned:
  "get_history int_decimal no_tokens unpositioned_state (Some [''A'']) = Inl TypeError"
  by code_simp

text \<open>
  Claim C8. For every domain: when the walk of \<^verbatim>\<open>get_history\<close> that attaches the running
  balance ends, the balance that is left is the balance of the domain minus the sum of
  the deltas of the rows. If it is neither \<^verbatim>\<open>None\<close> nor 0, \<^verbatim>\<open>get_history\<close> returns the
  empty list, as a value and not as an exception. If it is \<^verbatim>\<open>None\<close> or 0,
  \<^verbatim>\<open>get_history\<close> returns the rows of the walk reversed, which are in chronological order
  (\<open>chronological\<close>: by block height and position, then the mempool, then local
  transactions), and the balance of each row is the sum of the deltas up to that row.
  An exception raised before the walk ends (by the overlay arithmetic, by the
  conversion of a height to a float, or by the sort on a position that is \<^verbatim>\<open>None\<close>) is
  what \<^verbatim>\<open>get_history\<close> raises. When the overlay holds no token data, every verified
  transaction has a position and no unverified height is below \<open>-2\<^sup>5\<^sup>3\<close>, the walk ends
  and \<^verbatim>\<open>get_history\<close> returns a list.
\<close>

theorem get_history_balance_check:
  fixes D :: "('j, 'd) decimal_ops"
  shows
    "(\<forall>h2 balance.
        history_steps D ov s (history_domain s domain) = Inr (h2, balance) \<longrightarrow>
          balance = Some (domain_balance s (history_domain s domain) - delta_sum h2) \<and>
          (balance \<noteq> None \<and> balance \<noteq> Some 0 \<longrightarrow> get_history D ov s domain = Inr []) \<and>
          (balance = None \<or> balance = Some 0 \<longrightarrow>
             get_history D ov s domain = Inr (rev h2) \<and>
             chronological s (map fst (rev h2)) \<and>
             (\<forall>k < length h2.
                row_balance (rev h2 ! k) = Some (delta_sum (take (Suc k) (rev h2)))))) \<and>
     (\<forall>e. history_steps D ov s (history_domain s domain) = Inl e \<longrightarrow>
          get_history D ov s domain = Inl e) \<and>
     (omni_tx ov = Some [] \<and>
      (\<forall>(t, info) \<in> set (verified_tx s). txpos info \<noteq> None) \<and>
      (\<forall>(t, h) \<in> set (unverified_tx s). - (2 ^ 53) < h) \<longrightarrow>
        (\<exists>rows. get_history D ov s domain = Inr rows))"
proof (intro conjI allI impI)
  fix h2 balance
  assume st: "history_steps D ov s (history_domain s domain) = Inr (h2, balance)"
  note r = history_steps_result [OF st]
  show "balance = Some (domain_balance s (history_domain s domain) - delta_sum h2)"
    by (rule r(1))
  {
    assume "balance \<noteq> None \<and> balance \<noteq> Some 0"
    with st show "get_history D ov s domain = Inr []"
      by (simp add: get_history_def Let_def)
  }
  {
    assume b: "balance = None \<or> balance = Some 0"
    with st show "get_history D ov s domain = Inr (rev h2)"
      by (auto simp: get_history_def Let_def)
    show "chronological s (map fst (rev h2))" by (rule r(3))
    fix k assume k: "k < length h2"
    from b r(1) have "domain_balance s (history_domain s domain) = delta_sum h2" by auto
    from running_balance_rev [OF r(2) this] k
    show "row_balance (rev h2 ! k) = Some (delta_sum (take (Suc k) (rev h2)))" by simp
  }
next
  fix e assume "history_steps D ov s (history_domain s domain) = Inl e"
  then show "get_history D ov s domain = Inl e"
    by (simp add: get_history_def Let_def)
next
  assume "omni_tx ov = Some [] \<and>
      (\<forall>(t, info) \<in> set (verified_tx s). txpos info \<noteq> None) \<and>
      (\<forall>(t, h) \<in> set (unverified_tx s). - (2 ^ 53) < h)"
  then have "\<exists>h2 balance. history_steps D ov s (history_domain s domain) = Inr (h2, balance)"
    by (intro history_steps_total) simp_all
  then obtain h2 balance where
    "history_steps D ov s (history_domain s domain) = Inr (h2, balance)" by blast
  then have "get_history D ov s domain = Inr (if balance \<noteq> None \<and> balance \<noteq> Some 0 then [] else rev h2)"
    by (simp add: get_history_def Let_def)
  then show "\<exists>rows. get_history D ov s domain = Inr rows" by (rule exI)
qed

theorem get_history_balance_check_witness:
  "get_history int_decimal no_tokens history_state (Some [''A'']) =
     Inr [(''Tc'', \<lparr>height = 500, conf = Some 101, timestamp = Some 7, txpos = Some 4,
                     header_hash = Some ''H5''\<rparr>, Some 100, Some 100, IntZero, Dec 0),
          (''Tb'', \<lparr>height = 0, conf = Some 0, timestamp = None, txpos = None,
                     header_hash = None\<rparr>, Some 20, Some 120, IntZero, Dec 0),
          (''Ta'', \<lparr>height = - 2, conf = Some 0, timestamp = None, txpos = None,
                     header_hash = None\<rparr>, Some (- 30), Some 90, IntZero, Dec 0)] \<and>
   domain_balance history_state [''A''] = 90 \<and>
   domain_balance orphaned_state [''A''] = 100 \<and>
   snd (projr (history_steps int_decimal no_tokens orphaned_state [''A''])) = Some 1000 \<and>
   get_history int_decimal no_tokens orphaned_state (Some [''A'']) = Inr [] \<and>
   (\<exists>rows. get_history int_decimal no_tokens history_state None = Inr rows)"
proof -
  define h2c :: "int history_row list" where
    "h2c = [(''Ta'', \<lparr>height = - 2, conf = Some 0, timestamp = None, txpos = None,
                       header_hash = None\<rparr>, Some (- 30), Some 90, IntZero, Dec 0),
            (''Tb'', \<lparr>height = 0, conf = Some 0, timestamp = None, txpos = None,
                       header_hash = None\<rparr>, Some 20, Some 120, IntZero, Dec 0),
            (''Tc'', \<lparr>height = 500, conf = Some 101, timestamp = Some 7, txpos = Some 4,
                       header_hash = Some ''H5''\<rparr>, Some 100, Some 100, IntZero, Dec 0)]"
  have c1: "history_steps int_decimal no_tokens history_state
              (history_domain history_state (Some [''A''])) = Inr (h2c, Some 0)"
    unfolding h2c_def by code_simp
  note A = get_history_balance_check [of int_decimal no_tokens history_state "Some [''A'']"]
  from A [THEN conjunct1, THEN spec, THEN spec, THEN mp, OF c1]
  have "get_history int_decimal no_tokens history_state (Some [''A'']) = Inr (rev h2c)"
    by simp
  then have r1: "get_history int_decimal no_tokens history_state (Some [''A'']) =
     Inr [(''Tc'', \<lparr>height = 500, conf = Some 101, timestamp = Some 7, txpos = Some 4,
                     header_hash = Some ''H5''\<rparr>, Some 100, Some 100, IntZero, Dec 0),
          (''Tb'', \<lparr>height = 0, conf = Some 0, timestamp = None, txpos = None,
                     header_hash = None\<rparr>, Some 20, Some 120, IntZero, Dec 0),
          (''Ta'', \<lparr>height = - 2, conf = Some 0, timestamp = None, txpos = None,
                     header_hash = None\<rparr>, Some (- 30), Some 90, IntZero, Dec 0)]"
    by (simp add: h2c_def)
  have r2: "domain_balance history_state [''A''] = 90" by code_simp
  define h2o :: "int history_row list" where
    "h2o = [(''F'', \<lparr>height = - 2, conf = Some 0, timestamp = None, txpos = None,
                      header_hash = None\<rparr>, Some (- 900), Some 100, IntZero, Dec 0)]"
  have c2: "history_steps int_decimal no_tokens orphaned_state
              (history_domain orphaned_state (Some [''A''])) = Inr (h2o, Some 1000)"
    unfolding h2o_def by code_simp
  note B = get_history_balance_check [of int_decimal no_tokens orphaned_state "Some [''A'']"]
  from B [THEN conjunct1, THEN spec, THEN spec, THEN mp, OF c2]
  have r5: "get_history int_decimal no_tokens orphaned_state (Some [''A'']) = Inr []"
    by simp
  have r3: "domain_balance orphaned_state [''A''] = 100" by code_simp
  have r4: "snd (projr (history_steps int_decimal no_tokens orphaned_state [''A''])) = Some 1000"
    by code_simp
  have t1: "omni_tx no_tokens = Some [] \<and>
            (\<forall>(t, info) \<in> set (verified_tx history_state). txpos info \<noteq> None) \<and>
            (\<forall>(t, h) \<in> set (unverified_tx history_state). - (2 ^ 53) < h)"
    by code_simp
  note C = get_history_balance_check [of int_decimal no_tokens history_state None]
  from C [THEN conjunct2, THEN conjunct2, THEN mp, OF t1]
  have r6: "\<exists>rows. get_history int_decimal no_tokens history_state None = Inr rows" .
  from r1 r2 r3 r4 r5 r6 show ?thesis by (intro conjI)
qed

end
